theory Spec2Isabelle
  imports Complex_Main
begin

section \<open>Strings of the source language\<close>

text \<open>
  A Python \<open>str\<close> is a sequence of Unicode code points, and \<open>len\<close>, slicing and the
  \<open>re\<close> module count code points. A string is therefore a list of code points
  (\<open>nat\<close>); \<open>u\<close> turns an ASCII literal into such a list. The rupee, pound and euro
  signs of the source are the code points 0x20B9, 0xA3 and 0x20AC.
\<close>

type_synonym ustring = "nat list"

definition u :: "string \<Rightarrow> ustring" where
  "u s = map of_char s"

definition rupee :: nat where "rupee = 0x20B9"
definition pound :: nat where "pound = 0xA3"
definition euro :: nat where "euro = 0x20AC"

text \<open>\<open>s.startswith(p)\<close> and \<open>p in s\<close>.\<close>

fun startswith :: "ustring \<Rightarrow> ustring \<Rightarrow> bool" where
  "startswith s [] = True"
| "startswith [] (p # ps) = False"
| "startswith (c # cs) (p # ps) = (c = p \<and> startswith cs ps)"

fun contains :: "ustring \<Rightarrow> ustring \<Rightarrow> bool" where
  "contains [] p = (p = [])"
| "contains (c # cs) p = (startswith (c # cs) p \<or> contains cs p)"

text \<open>
  \<open>str.isspace\<close>, which is also the class \<open>\s\<close> of \<open>re\<close> on \<open>str\<close> patterns and the set
  of characters that \<open>str.strip()\<close> removes.
\<close>

definition isspace :: "nat \<Rightarrow> bool" where
  "isspace c = ((9 \<le> c \<and> c \<le> 13) \<or> (28 \<le> c \<and> c \<le> 32) \<or> c = 0x85 \<or> c = 0xA0
     \<or> c = 0x1680 \<or> (0x2000 \<le> c \<and> c \<le> 0x200A) \<or> c = 0x2028 \<or> c = 0x2029
     \<or> c = 0x202F \<or> c = 0x205F \<or> c = 0x3000)"

definition strip :: "ustring \<Rightarrow> ustring" where
  "strip s = rev (dropWhile isspace (rev (dropWhile isspace s)))"

text \<open>
  The class \<open>\d\<close> of \<open>re\<close> on \<open>str\<close> patterns is the Unicode category Nd, the same
  characters \<open>float()\<close> reads as decimal digits. The category is a union of blocks of
  ten consecutive code points, each starting at a digit zero (Unicode 14, the table of
  Python 3.11).
\<close>

definition digit_zeros :: "nat list" where
  "digit_zeros = [0x30, 0x660, 0x6F0, 0x7C0, 0x966, 0x9E6, 0xA66, 0xAE6, 0xB66, 0xBE6,
     0xC66, 0xCE6, 0xD66, 0xDE6, 0xE50, 0xED0, 0xF20, 0x1040, 0x1090, 0x17E0, 0x1810,
     0x1946, 0x19D0, 0x1A80, 0x1A90, 0x1B50, 0x1BB0, 0x1C40, 0x1C50, 0xA620, 0xA8D0,
     0xA900, 0xA9D0, 0xA9F0, 0xAA50, 0xABF0, 0xFF10, 0x104A0, 0x10D30, 0x11066, 0x110F0,
     0x11136, 0x111D0, 0x112F0, 0x11450, 0x114D0, 0x11650, 0x116C0, 0x11730, 0x118E0,
     0x11950, 0x11C50, 0x11D50, 0x11DA0, 0x16A60, 0x16AC0, 0x16B50, 0x1D7CE, 0x1D7D8,
     0x1D7E2, 0x1D7EC, 0x1D7F6, 0x1E140, 0x1E2F0, 0x1E950, 0x1FBF0]"

fun digit_in :: "nat list \<Rightarrow> nat \<Rightarrow> nat option" where
  "digit_in [] c = None"
| "digit_in (z # zs) c = (if z \<le> c \<and> c < z + 10 then Some (c - z) else digit_in zs c)"

definition digit_value :: "nat \<Rightarrow> nat option" where
  "digit_value c = (if c < 0x30 then None else digit_in digit_zeros c)"

definition isdigit :: "nat \<Rightarrow> bool" where
  "isdigit c = (digit_value c \<noteq> None)"

section \<open>Case mappings\<close>

text \<open>
  \<open>re.IGNORECASE\<close> compares through the simple one-to-one case mappings, \<open>str.upper\<close>
  and \<open>str.lower\<close> use the full mappings, which may change the length. All three are
  given on ASCII and on the few other code points that a mapping sends to an ASCII
  letter: U+0130 and U+212A lower to \<open>i\<close> and \<open>k\<close>; U+0131 and U+017F upper to \<open>I\<close> and
  \<open>S\<close>; U+00DF and the ligatures U+FB00 to U+FB06 upper to two or three ASCII letters.
  Every other code point is left as it is: Python maps it to code points outside ASCII,
  which no test of the source tells apart from the code point itself.
\<close>

definition sre_lower :: "nat \<Rightarrow> nat" where
  "sre_lower c = (if 65 \<le> c \<and> c \<le> 90 then c + 32
     else if c = 0x130 then 0x69 else if c = 0x212A then 0x6B else c)"

definition sre_upper :: "nat \<Rightarrow> nat" where
  "sre_upper c = (if 97 \<le> c \<and> c \<le> 122 then c - 32
     else if c = 0x131 then 0x49 else if c = 0x17F then 0x53 else c)"

definition upper_char :: "nat \<Rightarrow> ustring" where
  "upper_char c = (if 97 \<le> c \<and> c \<le> 122 then [c - 32]
     else if c = 0xDF then [0x53, 0x53]
     else if c = 0x131 then [0x49]
     else if c = 0x17F then [0x53]
     else if c = 0xFB00 then [0x46, 0x46]
     else if c = 0xFB01 then [0x46, 0x49]
     else if c = 0xFB02 then [0x46, 0x4C]
     else if c = 0xFB03 then [0x46, 0x46, 0x49]
     else if c = 0xFB04 then [0x46, 0x46, 0x4C]
     else if c = 0xFB05 then [0x53, 0x54]
     else if c = 0xFB06 then [0x53, 0x54]
     else [c])"

definition upper :: "ustring \<Rightarrow> ustring" where
  "upper s = concat (map upper_char s)"

definition lower_char :: "nat \<Rightarrow> ustring" where
  "lower_char c = (if 65 \<le> c \<and> c \<le> 90 then [c + 32]
     else if c = 0x130 then [0x69, 0x307]
     else if c = 0x212A then [0x6B]
     else [c])"

definition lower :: "ustring \<Rightarrow> ustring" where
  "lower s = concat (map lower_char s)"

section \<open>Regular expressions\<close>

text \<open>
  The patterns of the source use literals, character sets, the classes \<open>\d\<close> and \<open>\s\<close>,
  greedy repetition, alternation, one capturing group and the anchors \<open>^\<close> and \<open>$\<close>.
  \<open>ms\<close> is the backtracking matcher of \<open>re\<close>: given the whole subject \<open>w\<close> and the
  suffix \<open>s\<close> still to be read, it lists every way the pattern can match a prefix of
  \<open>s\<close>, in the order in which the backtracking engine tries them (greedy first), each
  with the text of the group and the suffix left over. The head of the list is the
  match that \<open>re\<close> reports.
\<close>

datatype cset = Ch nat | Range nat nat | Digit | Space

datatype regex =
    Set "cset list"
  | NSet "cset list"
  | Eps
  | Bol
  | Eol
  | Seq regex regex
  | Alt regex regex
  | Star regex
  | Group regex

fun in_cset :: "bool \<Rightarrow> cset \<Rightarrow> nat \<Rightarrow> bool" where
  "in_cset ic (Ch p) c =
     (if ic then sre_lower c = sre_lower p \<or> sre_upper (sre_lower c) = sre_upper (sre_lower p)
      else c = p)"
| "in_cset ic (Range lo hi) c =
     (if ic then (lo \<le> sre_lower c \<and> sre_lower c \<le> hi)
                \<or> (lo \<le> sre_upper (sre_lower c) \<and> sre_upper (sre_lower c) \<le> hi)
      else lo \<le> c \<and> c \<le> hi)"
| "in_cset ic Digit c = isdigit c"
| "in_cset ic Space c = isspace c"

definition set_match :: "bool \<Rightarrow> cset list \<Rightarrow> nat \<Rightarrow> bool" where
  "set_match ic cs c = list_ex (\<lambda>x. in_cset ic x c) cs"

definition merge_group :: "ustring option \<Rightarrow> ustring option \<Rightarrow> ustring option" where
  "merge_group g1 g2 = (case g2 of None \<Rightarrow> g1 | Some x \<Rightarrow> Some x)"

fun ms :: "bool \<Rightarrow> ustring \<Rightarrow> regex \<Rightarrow> ustring \<Rightarrow> (ustring option \<times> ustring) list" where
  "ms ic w (Set cs) s =
     (case s of [] \<Rightarrow> [] | c # t \<Rightarrow> if set_match ic cs c then [(None, t)] else [])"
| "ms ic w (NSet cs) s =
     (case s of [] \<Rightarrow> [] | c # t \<Rightarrow> if set_match ic cs c then [] else [(None, t)])"
| "ms ic w Eps s = [(None, s)]"
| "ms ic w Bol s = (if length s = length w then [(None, s)] else [])"
| "ms ic w Eol s = (if s = [] \<or> s = [10] then [(None, s)] else [])"
| "ms ic w (Seq a b) s =
     concat (map (\<lambda>m1. map (\<lambda>m2. (merge_group (fst m1) (fst m2), snd m2))
                             (ms ic w b (snd m1)))
                 (ms ic w a s))"
| "ms ic w (Alt a b) s = ms ic w a s @ ms ic w b s"
| "ms ic w (Star a) s =
     concat (map (\<lambda>m1. if length (snd m1) < length s
                        then map (\<lambda>m2. (merge_group (fst m1) (fst m2), snd m2))
                                 (ms ic w (Star a) (snd m1))
                        else [])
                 (ms ic w a s)) @ [(None, s)]"
| "ms ic w (Group a) s =
     map (\<lambda>m1. (Some (take (length s - length (snd m1)) s), snd m1)) (ms ic w a s)"

text \<open>Derived forms: a literal string, \<open>r+\<close>, \<open>r?\<close>, \<open>r{n}\<close> and \<open>r{n,n+k}\<close>.\<close>

fun lit :: "ustring \<Rightarrow> regex" where
  "lit [] = Eps"
| "lit (c # cs) = Seq (Set [Ch c]) (lit cs)"

definition Plus :: "regex \<Rightarrow> regex" where
  "Plus r = Seq r (Star r)"

definition Opt :: "regex \<Rightarrow> regex" where
  "Opt r = Alt r Eps"

fun Rep :: "nat \<Rightarrow> regex \<Rightarrow> regex" where
  "Rep 0 r = Eps"
| "Rep (Suc n) r = Seq r (Rep n r)"

fun UpTo :: "nat \<Rightarrow> regex \<Rightarrow> regex" where
  "UpTo 0 r = Eps"
| "UpTo (Suc n) r = Alt (Seq r (UpTo n r)) Eps"

fun seqs :: "regex list \<Rightarrow> regex" where
  "seqs [] = Eps"
| "seqs [r] = r"
| "seqs (r # rs) = Seq r (seqs rs)"

text \<open>
  A match object: start, end and group 1. \<open>re.search\<close> tries the start positions from
  left to right and reports the first match the engine finds.
\<close>

record match =
  m_start :: nat
  m_end :: nat
  group1 :: "ustring option"

fun search_from :: "bool \<Rightarrow> ustring \<Rightarrow> regex \<Rightarrow> ustring \<Rightarrow> match option" where
  "search_from ic w r s =
     (case ms ic w r s of
        m # _ \<Rightarrow> Some \<lparr>m_start = length w - length s, m_end = length w - length (snd m),
                       group1 = fst m\<rparr>
      | [] \<Rightarrow> (case s of [] \<Rightarrow> None | _ # t \<Rightarrow> search_from ic w r t))"

definition re_search :: "bool \<Rightarrow> regex \<Rightarrow> ustring \<Rightarrow> match option" where
  "re_search ic r w = search_from ic w r w"

text \<open>\<open>re.match\<close>: a match at position 0 only.\<close>

definition re_match :: "bool \<Rightarrow> regex \<Rightarrow> ustring \<Rightarrow> match option" where
  "re_match ic r w =
     (case ms ic w r w of
        m # _ \<Rightarrow> Some \<lparr>m_start = 0, m_end = length w - length (snd m), group1 = fst m\<rparr>
      | [] \<Rightarrow> None)"

text \<open>
  \<open>re.findall\<close> for a pattern with one group: the group texts of the successive
  non-overlapping matches, scanning from the left. After an empty match the scan moves
  one character on.
\<close>

function findall_from :: "bool \<Rightarrow> ustring \<Rightarrow> regex \<Rightarrow> ustring \<Rightarrow> ustring list" where
  "findall_from ic w r s =
     (case ms ic w r s of
        m # _ \<Rightarrow>
          (case fst m of None \<Rightarrow> [] | Some g \<Rightarrow> g) #
          (if length (snd m) < length s then findall_from ic w r (snd m)
           else (case s of [] \<Rightarrow> [] | _ # t \<Rightarrow> findall_from ic w r t))
      | [] \<Rightarrow> (case s of [] \<Rightarrow> [] | _ # t \<Rightarrow> findall_from ic w r t))"
  by pat_completeness auto
termination
  by (relation "measure (\<lambda>(ic, w, r, s). length s)") auto

definition re_findall :: "bool \<Rightarrow> regex \<Rightarrow> ustring \<Rightarrow> ustring list" where
  "re_findall ic r w = findall_from ic w r w"

text \<open>
  \<open>re.sub\<close> with a constant replacement. The three patterns the source substitutes
  (\<open>\s+\<close>, \<open><[^>]+>\<close> and \<open>[^\d.,]\<close>) never match the empty string.
\<close>

function sub_from :: "bool \<Rightarrow> ustring \<Rightarrow> regex \<Rightarrow> ustring \<Rightarrow> ustring \<Rightarrow> ustring" where
  "sub_from ic w r repl s =
     (case ms ic w r s of
        m # _ \<Rightarrow>
          (if length (snd m) < length s then repl @ sub_from ic w r repl (snd m)
           else repl @ (case s of [] \<Rightarrow> [] | c # t \<Rightarrow> c # sub_from ic w r repl t))
      | [] \<Rightarrow> (case s of [] \<Rightarrow> [] | c # t \<Rightarrow> c # sub_from ic w r repl t))"
  by pat_completeness auto
termination
  by (relation "measure (\<lambda>(ic, w, r, repl, s). length s)") auto

definition re_sub :: "bool \<Rightarrow> regex \<Rightarrow> ustring \<Rightarrow> ustring \<Rightarrow> ustring" where
  "re_sub ic r repl w = sub_from ic w r repl w"

text \<open>\<open>str.replace(old, new)\<close> for a non-empty \<open>old\<close>: left to right, non-overlapping.\<close>

function replace :: "ustring \<Rightarrow> ustring \<Rightarrow> ustring \<Rightarrow> ustring" where
  "replace old new s =
     (case s of [] \<Rightarrow> []
      | c # t \<Rightarrow> if old \<noteq> [] \<and> startswith s old then new @ replace old new (drop (length old) s)
                 else c # replace old new t)"
  by pat_completeness auto
termination
  by (relation "measure (\<lambda>(old, new, s). length s)") auto

section \<open>Identifier extraction\<close>

text \<open>
  \<open>extract_asin\<close>. The set \<open>[A-Z0-9]\<close>, the anchored pattern that is matched without
  flags against the uppercased input, and the seven URL patterns that are searched
  with \<open>re.IGNORECASE\<close>, in the order of the source.
\<close>

definition A_Z0_9 :: regex where
  "A_Z0_9 = Set [Range 65 90, Range 48 57]"

definition asin_only :: regex where
  "asin_only = seqs [Bol, Rep 10 A_Z0_9, Eol]"

definition asin_patterns :: "regex list" where
  "asin_patterns =
    [Seq (lit (u ''/dp/'')) (Group (Rep 10 A_Z0_9)),
     Seq (lit (u ''/gp/product/'')) (Group (Rep 10 A_Z0_9)),
     Seq (lit (u ''/ASIN/'')) (Group (Rep 10 A_Z0_9)),
     Seq (lit (u ''/product/'')) (Group (Rep 10 A_Z0_9)),
     Seq (lit (u ''/d/'')) (Group (Rep 10 A_Z0_9)),
     Seq (lit (u ''asin='')) (Group (Rep 10 A_Z0_9)),
     seqs [lit (u ''/''), Group (Rep 10 A_Z0_9), Alt (Set [Ch 47, Ch 63]) Eol]]"

text \<open>\<open>match.group(1)\<close>; every pattern of the source that reads it has the group on
  every path, so the group is never unset.\<close>

definition group :: "match \<Rightarrow> ustring" where
  "group m = (case group1 m of None \<Rightarrow> [] | Some g \<Rightarrow> g)"

fun search_asin :: "regex list \<Rightarrow> ustring \<Rightarrow> ustring option" where
  "search_asin [] input_data = None"
| "search_asin (pattern # rest) input_data =
     (case re_search True pattern input_data of
        Some m \<Rightarrow> Some (upper (group m))
      | None \<Rightarrow> search_asin rest input_data)"

definition extract_asin :: "ustring \<Rightarrow> ustring option" where
  "extract_asin input_data =
     (let input_data = strip input_data in
      if re_match False asin_only (upper input_data) \<noteq> None then Some (upper input_data)
      else search_asin asin_patterns input_data)"

text \<open>The invariant of a product identifier: ten characters, each in \<open>A-Z\<close> or \<open>0-9\<close>.\<close>

definition is_asin :: "ustring \<Rightarrow> bool" where
  "is_asin s = (length s = 10 \<and> list_all (\<lambda>c. (65 \<le> c \<and> c \<le> 90) \<or> (48 \<le> c \<and> c \<le> 57)) s)"

section \<open>Marketplace resolution\<close>

text \<open>\<open>get_amazon_domain\<close>: the chain of substring tests, in the order of the source.\<close>

definition get_amazon_domain :: "ustring \<Rightarrow> ustring" where
  "get_amazon_domain input_data =
    (if contains input_data (u ''amazon.in'') then u ''amazon.in''
     else if contains input_data (u ''amazon.co.uk'') then u ''amazon.co.uk''
     else if contains input_data (u ''amazon.ca'') then u ''amazon.ca''
     else if contains input_data (u ''amazon.de'') then u ''amazon.de''
     else if contains input_data (u ''amazon.fr'') then u ''amazon.fr''
     else if contains input_data (u ''amazon.it'') then u ''amazon.it''
     else if contains input_data (u ''amazon.es'') then u ''amazon.es''
     else if contains input_data (u ''amazon.com.au'') then u ''amazon.com.au''
     else if contains input_data (u ''amazon.com.br'') then u ''amazon.com.br''
     else if contains input_data (u ''amazon.co.jp'') then u ''amazon.co.jp''
     else u ''amazon.com'')"

text \<open>
  The expected-currency hint, computed at the head of \<open>_extract_price_with_currency\<close>
  from \<open>original_url\<close>; the empty string when no branch applies.
\<close>

definition expected_currency_of :: "ustring \<Rightarrow> ustring" where
  "expected_currency_of original_url =
    (if contains original_url (u ''amazon.in'') then u ''INR''
     else if contains original_url (u ''amazon.com'') then u ''USD''
     else if contains original_url (u ''amazon.co.uk'') then u ''GBP''
     else if contains original_url (u ''amazon.de'') then u ''EUR''
     else if contains original_url (u ''amazon.ca'') then u ''CAD''
     else if contains original_url (u ''amazon.com.au'') then u ''AUD''
     else [])"

section \<open>Price validation\<close>

text \<open>
  \<open>float(x)\<close> for a string \<open>x\<close> of decimal digits and full stops, which is all that is
  left of a candidate after the cleaning substitution and the removal of commas: digits
  with an optional fraction, or a full stop followed by digits; anything else raises
  \<open>ValueError\<close> (\<open>None\<close>). \<open>decimal_of\<close> reads the digits as an integer \<open>n\<close> and counts the
  \<open>k\<close> digits of the fraction: the decimal value is \<open>n / 10 ^ k\<close>.
\<close>

fun decimal :: "nat \<Rightarrow> ustring \<Rightarrow> nat" where
  "decimal acc [] = acc"
| "decimal acc (c # cs) = decimal (10 * acc + (case digit_value c of None \<Rightarrow> 0 | Some d \<Rightarrow> d)) cs"

definition decimal_of :: "ustring \<Rightarrow> (nat \<times> nat) option" where
  "decimal_of x =
     (case dropWhile isdigit x of
        [] \<Rightarrow> if takeWhile isdigit x = [] then None else Some (decimal 0 (takeWhile isdigit x), 0)
      | c # fraction \<Rightarrow>
          if c = 46 \<and> list_all isdigit fraction \<and> (takeWhile isdigit x \<noteq> [] \<or> fraction \<noteq> [])
          then Some (decimal 0 (takeWhile isdigit x @ fraction), length fraction)
          else None)"

text \<open>
  A Python \<open>float\<close> is an IEEE 754 binary64 number, and \<open>float()\<close> returns the double
  nearest to the decimal value, ties going to the even mantissa. For a positive value
  \<open>n / d\<close> with binary exponent \<open>e\<close> (at least \<open>-1022\<close>, below that the doubles are
  subnormal) the doubles are the multiples of \<open>2 ^ (e - 52)\<close>; a result of \<open>2 ^ 1024\<close>
  or more is infinity. Only non-negative values occur: no sign survives the cleaning.
\<close>

datatype pyfloat = Finite rat | Infinity

fun float_lt :: "pyfloat \<Rightarrow> pyfloat \<Rightarrow> bool" where
  "float_lt (Finite a) (Finite b) = (a < b)"
| "float_lt (Finite a) Infinity = True"
| "float_lt Infinity y = False"

function bits :: "nat \<Rightarrow> nat" where
  "bits n = (if n = 0 then 0 else bits (n div 2) + 1)"
  by pat_completeness auto
termination
  by (relation "measure (\<lambda>n. n)") auto

definition bit_gap :: "nat \<Rightarrow> nat \<Rightarrow> int" where
  "bit_gap n d = int (bits n) - int (bits d)"

text \<open>The binary exponent of \<open>n / d\<close>, that is \<open>\<lfloor>log\<^sub>2 (n / d)\<rfloor>\<close>, for positive \<open>n\<close> and \<open>d\<close>.\<close>

definition floor_log2 :: "nat \<Rightarrow> nat \<Rightarrow> int" where
  "floor_log2 n d =
     (if (if 0 \<le> bit_gap n d then d * 2 ^ nat (bit_gap n d) \<le> n
          else d \<le> n * 2 ^ nat (- bit_gap n d))
      then bit_gap n d else bit_gap n d - 1)"

text \<open>\<open>n / d\<close> rounded to the nearest integer, a tie to the even one.\<close>

definition round_half_even :: "nat \<Rightarrow> nat \<Rightarrow> nat" where
  "round_half_even n d =
     (if 2 * (n mod d) < d then n div d
      else if d < 2 * (n mod d) then n div d + 1
      else if even (n div d) then n div d else n div d + 1)"

definition quantum_exp :: "nat \<Rightarrow> nat \<Rightarrow> int" where
  "quantum_exp n d = max (floor_log2 n d) (- 1022) - 52"

definition mantissa :: "nat \<Rightarrow> nat \<Rightarrow> int \<Rightarrow> nat" where
  "mantissa n d t =
     (if 0 \<le> t then round_half_even n (d * 2 ^ nat t) else round_half_even (n * 2 ^ nat (- t)) d)"

definition scaled :: "nat \<Rightarrow> int \<Rightarrow> rat" where
  "scaled m t = (if 0 \<le> t then of_nat m * 2 ^ nat t else of_nat m / 2 ^ nat (- t))"

text \<open>The nearest multiple of the quantum, before the overflow check.\<close>

definition rounded :: "nat \<Rightarrow> nat \<Rightarrow> rat" where
  "rounded n d = scaled (mantissa n d (quantum_exp n d)) (quantum_exp n d)"

definition to_double :: "nat \<Rightarrow> nat \<Rightarrow> pyfloat" where
  "to_double n d =
     (if n = 0 then Finite 0
      else if 2 ^ 1024 \<le> rounded n d then Infinity
      else Finite (rounded n d))"

definition float_of :: "ustring \<Rightarrow> pyfloat option" where
  "float_of x = (case decimal_of x of None \<Rightarrow> None | Some (n, k) \<Rightarrow> Some (to_double n (10 ^ k)))"

text \<open>The substitution \<open>re.sub(r'[^\d.,]', '', price_value)\<close> of both validators.\<close>

definition clean_price_of :: "ustring \<Rightarrow> ustring" where
  "clean_price_of price_value = re_sub False (NSet [Digit, Ch 46, Ch 44]) [] price_value"

text \<open>
  The validators. The bounds \<open>1\<close>, \<open>1000000\<close> and \<open>10000000\<close> are integers that are
  doubles themselves; the literal \<open>0.01\<close> is the double nearest to one hundredth.
\<close>

definition is_valid_price :: "ustring \<Rightarrow> bool" where
  "is_valid_price price_value =
     (if price_value = [] then False
      else let clean_price = clean_price_of price_value in
        if length clean_price < 2 then False
        else if startswith clean_price (u ''0'') \<and> length clean_price = 1 then False
        else (case float_of (replace (u '','') [] clean_price) of
                None \<Rightarrow> False
              | Some numeric_price \<Rightarrow>
                  if float_lt numeric_price (Finite 1) \<or> float_lt (Finite 1000000) numeric_price
                  then False else True))"

definition is_valid_fallback_price :: "ustring \<Rightarrow> bool" where
  "is_valid_fallback_price price_value =
     (if price_value = [] then False
      else let clean_price = clean_price_of price_value in
        if length clean_price < 2 then False
        else (case float_of (replace (u '','') [] clean_price) of
                None \<Rightarrow> False
              | Some numeric_price \<Rightarrow>
                  if float_lt numeric_price (to_double 1 100)
                     \<or> float_lt (Finite 10000000) numeric_price
                  then False else True))"

text \<open>The value the validators compare, that is the double that \<open>float\<close> returns for
  the cleaned candidate without its commas, and the decimal value it is rounded from.\<close>

definition numeric_value :: "ustring \<Rightarrow> pyfloat option" where
  "numeric_value price_value = float_of (replace (u '','') [] (clean_price_of price_value))"

definition decimal_value :: "ustring \<Rightarrow> rat option" where
  "decimal_value price_value =
     (case decimal_of (replace (u '','') [] (clean_price_of price_value)) of
        None \<Rightarrow> None | Some (n, k) \<Rightarrow> Some (of_nat n / 10 ^ k))"

section \<open>Content validity\<close>

definition product_indicators :: "ustring list" where
  "product_indicators =
    [u ''productTitle'', u ''feature-bullets'', u ''productDescription'', u ''a-price'',
     u ''a-offscreen'', u ''data-old-hires'', u ''data-a-dynamic-image'']"

definition error_indicators :: "ustring list" where
  "error_indicators =
    [u ''Sorry, we just need to make sure you'' @ [39] @ u ''re not a robot'',
     u ''Enter the characters you see below'',
     u ''Type the characters you see in this image'',
     u ''To discuss automated access to Amazon data please contact'',
     u ''Robot Check'',
     u ''captcha'',
     u ''blocked'']"

fun has_error_indicator :: "ustring list \<Rightarrow> ustring \<Rightarrow> bool" where
  "has_error_indicator [] html = False"
| "has_error_indicator (error_indicator # rest) html =
     (if contains (lower html) (lower error_indicator) then True
      else has_error_indicator rest html)"

fun count_indicators :: "ustring list \<Rightarrow> ustring \<Rightarrow> nat \<Rightarrow> nat" where
  "count_indicators [] html product_count = product_count"
| "count_indicators (indicator # rest) html product_count =
     count_indicators rest html (if contains html indicator then product_count + 1 else product_count)"

definition has_real_product_data :: "ustring \<Rightarrow> bool" where
  "has_real_product_data html =
     (if has_error_indicator error_indicators html then False
      else count_indicators product_indicators html 0 \<ge> 2)"

section \<open>The fallback orchestrator\<close>

text \<open>
  The canonical product record and the price record it holds. A strategy is a remote
  fetch followed by a parser; what it yields for an identifier is not determined by the
  program, so the four strategies are parameters. A strategy either raises or returns
  \<open>None\<close> or a record.
\<close>

record price_record =
  original :: ustring
  discounted :: ustring
  currency :: ustring

record product =
  product_name :: ustring
  price :: price_record
  description :: ustring
  variants :: "ustring list"
  image_urls :: "ustring list"
  source_method :: ustring
  asin :: ustring

datatype 'a outcome = Raises | Returns 'a

type_synonym strategy = "ustring \<Rightarrow> product option outcome"

record strategies =
  fetch_with_rainforest_api :: strategy
  fetch_with_scraperapi :: strategy
  fetch_with_rapidapi :: strategy
  fetch_with_direct_amazon :: "ustring \<Rightarrow> ustring \<Rightarrow> product option outcome"

datatype response =
    InvalidInput ustring
  | ProductRecord product
  | ErrorRecord ustring "ustring list"

definition methods :: "strategies \<Rightarrow> ustring \<Rightarrow> (ustring \<times> strategy) list" where
  "methods env input_data =
    [(u ''rainforest_api'', fetch_with_rainforest_api env),
     (u ''scraperapi'', fetch_with_scraperapi env),
     (u ''rapidapi'', fetch_with_rapidapi env),
     (u ''direct_amazon'', \<lambda>asin0. fetch_with_direct_amazon env asin0 input_data)]"

text \<open>
  The loop over \<open>methods\<close>. The second component is the sequence of strategies that were
  invoked, in the order of their \<open>Trying ...\<close> log lines. \<open>result and
  result.get('product_name')\<close> holds for a record with a non-empty name.
\<close>

fun try_methods :: "(ustring \<times> strategy) list \<Rightarrow> ustring \<Rightarrow> ustring list
    \<Rightarrow> product option \<times> ustring list" where
  "try_methods [] asin0 tried = (None, tried)"
| "try_methods ((method_name, method_func) # rest) asin0 tried =
     (case method_func asin0 of
        Returns (Some result) \<Rightarrow>
          if product_name result \<noteq> []
          then (Some (result\<lparr>source_method := method_name, asin := asin0\<rparr>), tried @ [method_name])
          else try_methods rest asin0 (tried @ [method_name])
      | Returns None \<Rightarrow> try_methods rest asin0 (tried @ [method_name])
      | Raises \<Rightarrow> try_methods rest asin0 (tried @ [method_name]))"

definition get_product_info :: "strategies \<Rightarrow> ustring \<Rightarrow> response \<times> ustring list" where
  "get_product_info env input_data =
     (case extract_asin input_data of
        None \<Rightarrow> (InvalidInput input_data, [])
      | Some asin0 \<Rightarrow>
          (case try_methods (methods env input_data) asin0 [] of
             (Some result, tried) \<Rightarrow> (ProductRecord result, tried)
           | (None, tried) \<Rightarrow>
               (ErrorRecord asin0 (map fst (methods env input_data)), tried)))"

text \<open>What the four strategies yield for an identifier, and when a yield is usable.\<close>

definition yields :: "strategies \<Rightarrow> ustring \<Rightarrow> ustring \<Rightarrow> product option outcome list" where
  "yields env input_data asin0 =
    [fetch_with_rainforest_api env asin0, fetch_with_scraperapi env asin0,
     fetch_with_rapidapi env asin0, fetch_with_direct_amazon env asin0 input_data]"

definition usable :: "product option outcome \<Rightarrow> bool" where
  "usable y = (case y of Returns (Some result) \<Rightarrow> product_name result \<noteq> [] | _ \<Rightarrow> False)"

definition the_record :: "product option outcome \<Rightarrow> product" where
  "the_record y = (case y of Returns (Some result) \<Rightarrow> result)"

definition strategy_names :: "ustring list" where
  "strategy_names = [u ''rainforest_api'', u ''scraperapi'', u ''rapidapi'', u ''direct_amazon'']"

definition is_error_record :: "response \<Rightarrow> bool" where
  "is_error_record r = (case r of ErrorRecord _ _ \<Rightarrow> True | _ \<Rightarrow> False)"

text \<open>A sample environment: only the second strategy yields a named record.\<close>

definition echo_dot :: product where
  "echo_dot = \<lparr>product_name = u ''Echo Dot'',
     price = \<lparr>original = [], discounted = [], currency = []\<rparr>,
     description = [], variants = [], image_urls = [], source_method = [], asin = []\<rparr>"

definition sample_strategies :: strategies where
  "sample_strategies = \<lparr>fetch_with_rainforest_api = (\<lambda>_. Returns None),
     fetch_with_scraperapi = (\<lambda>_. Returns (Some echo_dot)),
     fetch_with_rapidapi = (\<lambda>_. Raises),
     fetch_with_direct_amazon = (\<lambda>_ _. Returns None)\<rparr>"

section \<open>Price extraction\<close>

text \<open>
  The number shapes of the patterns: \<open>(\d+(?:\.\d{2})?)\<close>, \<open>(\d+(?:,\d+)*)\<close> and \<open>\s*\<close>.
\<close>

definition number_dec :: regex where
  "number_dec = Group (Seq (Plus (Set [Digit])) (Opt (Seq (Set [Ch 46]) (Rep 2 (Set [Digit])))))"

definition number_commas :: regex where
  "number_commas = Group (Seq (Plus (Set [Digit])) (Star (Seq (Set [Ch 44]) (Plus (Set [Digit])))))"

definition spaces :: regex where
  "spaces = Star (Set [Space])"

type_synonym price_pattern = "regex \<times> ustring \<times> ustring"

text \<open>The triples (pattern, symbol, currency code) of the source, by currency.\<close>

definition inr_patterns :: "price_pattern list" where
  "inr_patterns =
    [(Seq (lit [rupee]) number_commas, [rupee], u ''INR''),
     (seqs [lit (u ''Rs''), Opt (Set [Ch 46]), spaces, number_commas], [rupee], u ''INR''),
     (seqs [lit (u ''INR''), spaces, number_commas], [rupee], u ''INR'')]"

definition gbp_patterns :: "price_pattern list" where
  "gbp_patterns =
    [(Seq (lit [pound]) number_dec, [pound], u ''GBP''),
     (seqs [lit (u ''GBP''), spaces, number_dec], [pound], u ''GBP'')]"

definition usd_patterns :: "price_pattern list" where
  "usd_patterns =
    [(Seq (lit (u ''$'')) number_dec, u ''$'', u ''USD''),
     (seqs [lit (u ''USD''), spaces, number_dec], u ''$'', u ''USD'')]"

definition eur_patterns :: "price_pattern list" where
  "eur_patterns =
    [(Seq (lit [euro]) number_dec, [euro], u ''EUR''),
     (seqs [lit (u ''EUR''), spaces, number_dec], [euro], u ''EUR'')]"

definition cad_patterns :: "price_pattern list" where
  "cad_patterns =
    [(seqs [lit (u ''C$''), spaces, number_dec], u ''C$'', u ''CAD''),
     (seqs [lit (u ''CAD''), spaces, number_dec], u ''C$'', u ''CAD'')]"

definition aud_patterns :: "price_pattern list" where
  "aud_patterns =
    [(seqs [lit (u ''A$''), spaces, number_dec], u ''A$'', u ''AUD''),
     (seqs [lit (u ''AUD''), spaces, number_dec], u ''A$'', u ''AUD'')]"

text \<open>
  The two generic patterns, \<open><span[^>]*class="[^"]*a-price-whole[^"]*"[^>]*>(\d+(?:,\d+)*)</span>\<close>
  and \<open><span[^>]*class="[^"]*a-offscreen[^"]*"[^>]*>([^<]+)</span>\<close>. Code point 34 is
  the double quote, 60 and 62 are the angle brackets.
\<close>

definition generic_patterns :: "price_pattern list" where
  "generic_patterns =
    [(seqs [lit (u ''<span''), Star (NSet [Ch 62]), lit (u ''class='' @ [34]),
            Star (NSet [Ch 34]), lit (u ''a-price-whole''), Star (NSet [Ch 34]), lit [34],
            Star (NSet [Ch 62]), lit (u ''>''), number_commas, lit (u ''</span>'')], [], []),
     (seqs [lit (u ''<span''), Star (NSet [Ch 62]), lit (u ''class='' @ [34]),
            Star (NSet [Ch 34]), lit (u ''a-offscreen''), Star (NSet [Ch 34]), lit [34],
            Star (NSet [Ch 62]), lit (u ''>''), Group (Plus (NSet [Ch 60])), lit (u ''</span>'')],
      [], [])]"

text \<open>The table of \<open>_extract_price_with_currency\<close>: INR first for an Indian URL, INR
  last among the currencies otherwise; the generic patterns close both tables.\<close>

definition price_patterns :: "ustring \<Rightarrow> price_pattern list" where
  "price_patterns expected_currency =
    (if expected_currency = u ''INR''
     then inr_patterns @ gbp_patterns @ usd_patterns @ eur_patterns @ cad_patterns
          @ aud_patterns @ generic_patterns
     else gbp_patterns @ usd_patterns @ eur_patterns @ cad_patterns @ aud_patterns
          @ inr_patterns @ generic_patterns)"

definition empty_price :: price_record where
  "empty_price = \<lparr>original = [], discounted = [], currency = []\<rparr>"

definition priced :: "ustring \<Rightarrow> ustring \<Rightarrow> ustring \<Rightarrow> price_record" where
  "priced symbol price_value currency_code =
     \<lparr>original = symbol @ price_value, discounted = symbol @ price_value,
      currency = currency_code\<rparr>"

text \<open>The chain of tests on a non-empty \<open>expected_currency\<close>, shared by the second pass
  and the fallback extraction; without a matching branch \<open>price_data\<close> keeps its initial
  value.\<close>

definition price_for_expected :: "ustring \<Rightarrow> ustring \<Rightarrow> price_record" where
  "price_for_expected expected_currency price_value =
    (if expected_currency = u ''INR'' then priced [rupee] price_value (u ''INR'')
     else if expected_currency = u ''USD'' then priced (u ''$'') price_value (u ''USD'')
     else if expected_currency = u ''GBP'' then priced [pound] price_value (u ''GBP'')
     else if expected_currency = u ''EUR'' then priced [euro] price_value (u ''EUR'')
     else if expected_currency = u ''CAD'' then priced (u ''C$'') price_value (u ''CAD'')
     else if expected_currency = u ''AUD'' then priced (u ''A$'') price_value (u ''AUD'')
     else empty_price)"

text \<open>The currency read from the 100 characters on each side of a generic match.\<close>

definition context_of :: "ustring \<Rightarrow> match \<Rightarrow> ustring" where
  "context_of html m =
     (let context_start = m_start m - 100;
          context_end = min (length html) (m_end m + 100)
      in take (context_end - context_start) (drop context_start html))"

definition price_from_context :: "ustring \<Rightarrow> ustring \<Rightarrow> price_record" where
  "price_from_context context price_value =
    (if contains context [rupee] \<or> contains context (u ''INR'')
       then priced [rupee] price_value (u ''INR'')
     else if contains context (u ''$'') \<or> contains context (u ''USD'')
       then priced (u ''$'') price_value (u ''USD'')
     else if contains context [pound] \<or> contains context (u ''GBP'')
       then priced [pound] price_value (u ''GBP'')
     else if contains context [euro] \<or> contains context (u ''EUR'')
       then priced [euro] price_value (u ''EUR'')
     else priced (u ''$'') price_value (u ''USD''))"

text \<open>First pass: the currency patterns, with \<open>re.search\<close>; the first valid capture
  returns.\<close>

fun first_pass :: "price_pattern list \<Rightarrow> ustring \<Rightarrow> price_record option" where
  "first_pass [] html = None"
| "first_pass ((pattern, symbol, currency_code) # rest) html =
     (case re_search True pattern html of
        Some m \<Rightarrow>
          if is_valid_price (group m) then Some (priced symbol (group m) currency_code)
          else first_pass rest html
      | None \<Rightarrow> first_pass rest html)"

text \<open>Second pass: the generic patterns; the first valid capture sets the record and
  leaves the loop.\<close>

fun second_pass :: "price_pattern list \<Rightarrow> ustring \<Rightarrow> ustring \<Rightarrow> price_record" where
  "second_pass [] html expected_currency = empty_price"
| "second_pass ((pattern, symbol, currency_code) # rest) html expected_currency =
     (case re_search True pattern html of
        Some m \<Rightarrow>
          if is_valid_price (group m)
          then (if expected_currency \<noteq> [] then price_for_expected expected_currency (group m)
                else price_from_context (context_of html m) (group m))
          else second_pass rest html expected_currency
      | None \<Rightarrow> second_pass rest html expected_currency)"

text \<open>The table of \<open>_extract_fallback_price\<close>; its last entry is the bare number
  \<open>(\d{2,4}(?:,\d{3})*(?:\.\d{2})?)\<close>.\<close>

definition bare_number :: price_pattern where
  "bare_number =
    (Group (seqs [Rep 2 (Set [Digit]), UpTo 2 (Set [Digit]),
                  Star (Seq (Set [Ch 44]) (Rep 3 (Set [Digit]))),
                  Opt (Seq (Set [Ch 46]) (Rep 2 (Set [Digit])))]), [], [])"

definition fallback_patterns :: "price_pattern list" where
  "fallback_patterns =
     gbp_patterns @ usd_patterns @ eur_patterns @ cad_patterns @ aud_patterns @ inr_patterns
     @ [bare_number]"

text \<open>The inner loop over the \<open>re.findall\<close> matches of one pattern; \<open>Some\<close> is a
  \<open>return\<close>.\<close>

fun scan_matches :: "ustring list \<Rightarrow> ustring \<Rightarrow> ustring \<Rightarrow> ustring \<Rightarrow> price_record option" where
  "scan_matches [] symbol currency_code expected_currency = None"
| "scan_matches (price_value # rest) symbol currency_code expected_currency =
     (if is_valid_fallback_price price_value
      then (if currency_code \<noteq> [] then Some (priced symbol price_value currency_code)
            else if expected_currency \<noteq> []
              then Some (price_for_expected expected_currency price_value)
            else scan_matches rest symbol currency_code expected_currency)
      else scan_matches rest symbol currency_code expected_currency)"

fun fallback_loop :: "price_pattern list \<Rightarrow> ustring \<Rightarrow> ustring \<Rightarrow> price_record" where
  "fallback_loop [] html expected_currency = empty_price"
| "fallback_loop ((pattern, symbol, currency_code) # rest) html expected_currency =
     (case scan_matches (re_findall True pattern html) symbol currency_code expected_currency of
        Some price_data \<Rightarrow> price_data
      | None \<Rightarrow> fallback_loop rest html expected_currency)"

definition extract_fallback_price :: "ustring \<Rightarrow> ustring \<Rightarrow> price_record" where
  "extract_fallback_price html expected_currency =
     fallback_loop fallback_patterns html expected_currency"

text \<open>
  \<open>_extract_price_with_currency\<close>. The record that the fallback extraction returns is
  a dictionary with three keys, hence true in \<open>if fallback_price\<close>, and is returned as it
  is. \<open>price_patterns[:-2]\<close> and \<open>price_patterns[-2:]\<close> split the table before its last
  two entries.
\<close>

definition extract_price_with_currency :: "ustring \<Rightarrow> ustring \<Rightarrow> price_record" where
  "extract_price_with_currency html original_url =
     (let expected_currency = expected_currency_of original_url in
      if \<not> has_real_product_data html then extract_fallback_price html expected_currency
      else
        let table = price_patterns expected_currency in
        case first_pass (take (length table - 2) table) html of
          Some price_data \<Rightarrow> price_data
        | None \<Rightarrow> second_pass (drop (length table - 2) table) html expected_currency)"

text \<open>The symbol that belongs to each currency code.\<close>

definition currency_symbols :: "(ustring \<times> ustring) list" where
  "currency_symbols =
    [(u ''INR'', [rupee]), (u ''USD'', u ''$''), (u ''GBP'', [pound]), (u ''EUR'', [euro]),
     (u ''CAD'', u ''C$''), (u ''AUD'', u ''A$'')]"

text \<open>A pattern hits a page when \<open>re.search\<close> finds it and the captured text is a valid
  price.\<close>

definition hits :: "price_pattern \<Rightarrow> ustring \<Rightarrow> bool" where
  "hits p html =
     (case re_search True (fst p) html of None \<Rightarrow> False | Some m \<Rightarrow> is_valid_price (group m))"

definition hit_value :: "price_pattern \<Rightarrow> ustring \<Rightarrow> ustring" where
  "hit_value p html = (case re_search True (fst p) html of None \<Rightarrow> [] | Some m \<Rightarrow> group m)"

text \<open>The invariant of a price record: both prices are the same text, and a record with
  a currency carries non-empty prices that begin with the symbol of that currency.\<close>

definition well_formed_price :: "price_record \<Rightarrow> bool" where
  "well_formed_price r =
     (original r = discounted r
      \<and> (currency r \<noteq> [] \<longrightarrow>
           (\<exists>symbol. map_of currency_symbols (currency r) = Some symbol
              \<and> startswith (original r) symbol \<and> startswith (discounted r) symbol
              \<and> original r \<noteq> [] \<and> discounted r \<noteq> [])))"

text \<open>A table entry is consistent when its symbol is the one of its currency code; the
  generic entries and the bare number have neither.\<close>

definition entry_ok :: "price_pattern \<Rightarrow> bool" where
  "entry_ok p = (snd (snd p) = [] \<or> map_of currency_symbols (snd (snd p)) = Some (fst (snd p)))"

text \<open>A product page (two markers) that shows a one-digit rupee amount, a rupee price
  and a pound price, in this order.\<close>

definition rupee_and_pound_page :: ustring where
  "rupee_and_pound_page =
     u ''productTitle a-price '' @ [rupee] @ u ''5 '' @ [rupee] @ u ''2,499 '' @ [pound] @ u ''10''"

section \<open>Description cleaning\<close>

definition prefixes_to_remove :: "ustring list" where
  "prefixes_to_remove =
    [u ''About this item'', u ''About this Item'', u ''ABOUT THIS ITEM'',
     u ''Product Description'', u ''Description'', u ''Features:'', u ''Features :'',
     u ''FEATURES:'', u ''FEATURES :'']"

fun remove_prefixes :: "ustring list \<Rightarrow> ustring \<Rightarrow> ustring" where
  "remove_prefixes [] desc = desc"
| "remove_prefixes (prefix # rest) desc =
     remove_prefixes rest
       (if startswith desc prefix then strip (drop (length prefix) desc)
        else desc)"

text \<open>The patterns \<open>\s+\<close> and \<open><[^>]+>\<close>.\<close>

definition whitespace_run :: regex where
  "whitespace_run = Plus (Set [Space])"

definition html_tag :: regex where
  "html_tag = seqs [lit (u ''<''), Plus (NSet [Ch 62]), lit (u ''>'')]"

definition clean_description :: "ustring \<Rightarrow> ustring" where
  "clean_description desc =
     (if desc = [] then []
      else
        let desc = remove_prefixes prefixes_to_remove desc;
            desc = re_sub False whitespace_run (u '' '') desc;
            desc = strip desc;
            desc = replace (u ''&amp;'') (u ''&'') desc;
            desc = replace (u ''&quot;'') [34] desc;
            desc = replace (u ''&#39;'') [39] desc;
            desc = replace (u ''&lt;'') (u ''<'') desc;
            desc = replace (u ''&gt;'') (u ''>'') desc;
            desc = replace (u ''&nbsp;'') (u '' '') desc;
            desc = re_sub False html_tag [] desc;
            desc = re_sub False whitespace_run (u '' '') desc;
            desc = strip desc
        in desc)"

definition html_entities :: "ustring list" where
  "html_entities = [u ''&amp;'', u ''&quot;'', u ''&#39;'', u ''&lt;'', u ''&gt;'', u ''&nbsp;'']"

text \<open>
  What \<open>re.sub(r'\s+', ' ', s)\<close> computes, written as a scan: a run of whitespace becomes
  one space. The agreement with the matcher is proved below.
\<close>

function collapse :: "ustring \<Rightarrow> ustring" where
  "collapse [] = []"
| "collapse (c # t) = (if isspace c then 32 # collapse (dropWhile isspace t) else c # collapse t)"
  by pat_completeness auto
termination
  by (relation "measure length") (auto simp: less_Suc_eq_le length_dropWhile_le)

text \<open>A text is single-spaced when its only whitespace characters are single spaces
  (code point 32), none next to another.\<close>

fun single_spaced :: "ustring \<Rightarrow> bool" where
  "single_spaced [] = True"
| "single_spaced [c] = (isspace c \<longrightarrow> c = 32)"
| "single_spaced (c # d # t) = ((isspace c \<longrightarrow> c = 32 \<and> \<not> isspace d) \<and> single_spaced (d # t))"

section \<open>Image extraction\<close>













section \<open>Evaluation rules\<close>

lemma Rep_numeral: "Rep (numeral k) r = Seq r (Rep (pred_numeral k) r)"
  by (simp add: numeral_eq_Suc)

lemma UpTo_numeral: "UpTo (numeral k) r = Alt (Seq r (UpTo (pred_numeral k) r)) Eps"
  by (simp add: numeral_eq_Suc)

declare search_from.simps [simp del] findall_from.simps [simp del] sub_from.simps [simp del]
  replace.simps [simp del]

lemmas regex_eval = search_from.simps findall_from.simps sub_from.simps replace.simps
  u_def re_match_def re_search_def re_findall_def re_sub_def set_match_def
  sre_lower_def sre_upper_def group_def merge_group_def Plus_def Opt_def Rep_numeral UpTo_numeral
  isspace_def isdigit_def digit_value_def digit_zeros_def

lemmas asin_eval = extract_asin_def asin_only_def asin_patterns_def A_Z0_9_def strip_def
  upper_def upper_char_def is_asin_def

declare bits.simps [simp del]

lemma bits_eval:
  "bits 0 = 0" "bits 1 = 1" "bits (Suc 0) = 1" "bits (numeral k) = bits (numeral k div 2) + 1"
  by (simp_all add: bits.simps [of 0] bits.simps [of 1] bits.simps [of "Suc 0"]
      bits.simps [of "numeral k"])

lemmas price_eval = is_valid_price_def is_valid_fallback_price_def clean_price_of_def float_of_def
  numeric_value_def decimal_value_def decimal_of_def to_double_def rounded_def scaled_def
  mantissa_def
  quantum_exp_def round_half_even_def floor_log2_def bit_gap_def bits_eval

lemmas extract_eval = extract_price_with_currency_def extract_fallback_price_def
  price_patterns_def inr_patterns_def gbp_patterns_def usd_patterns_def eur_patterns_def
  cad_patterns_def aud_patterns_def generic_patterns_def fallback_patterns_def bare_number_def
  number_dec_def number_commas_def spaces_def rupee_def pound_def euro_def priced_def
  empty_price_def price_for_expected_def price_from_context_def context_of_def
  expected_currency_of_def hits_def hit_value_def

lemmas clean_eval = clean_description_def prefixes_to_remove_def whitespace_run_def html_tag_def
  strip_def html_entities_def


lemmas validity_eval = has_real_product_data_def error_indicators_def product_indicators_def
  lower_def lower_char_def

section \<open>Properties of marketplace resolution\<close>

lemma startswith_append: "startswith s (p @ q) \<Longrightarrow> startswith s p"
  by (induction s p rule: startswith.induct) auto

lemma contains_append: "contains s (p @ q) \<Longrightarrow> contains s p"
  by (induction s) (auto dest: startswith_append)

lemma contains_com_au: "contains s (u ''amazon.com.au'') \<Longrightarrow> contains s (u ''amazon.com'')"
proof -
  have "u ''amazon.com.au'' = u ''amazon.com'' @ u ''.au''" by (simp add: u_def)
  then show "contains s (u ''amazon.com.au'') \<Longrightarrow> contains s (u ''amazon.com'')"
    using contains_append by metis
qed

lemma expected_currency_never_AUD: "expected_currency_of original_url \<noteq> u ''AUD''"
proof -
  have "contains original_url (u ''amazon.com.au'') \<Longrightarrow> contains original_url (u ''amazon.com'')"
    by (rule contains_com_au)
  moreover have "u ''INR'' \<noteq> u ''AUD''" "u ''USD'' \<noteq> u ''AUD''" "u ''GBP'' \<noteq> u ''AUD''"
    "u ''EUR'' \<noteq> u ''AUD''" "u ''CAD'' \<noteq> u ''AUD''" "[] \<noteq> u ''AUD''"
    by (simp_all add: u_def)
  ultimately show ?thesis
    unfolding expected_currency_of_def by presburger
qed

text \<open>
  C3. The claim has every input containing \<open>amazon.com.au\<close> expect AUD and every input
  with no regional fragment expect USD. In the code the test for \<open>amazon.com\<close> precedes
  the test for \<open>amazon.com.au\<close>, so an Australian URL expects USD although
  \<open>get_amazon_domain\<close> resolves it to \<open>amazon.com.au\<close>; and an input without any
  fragment resolves to \<open>amazon.com\<close> while its expected currency is empty.
\<close>

theorem expected_currency_com_au_is_USD:
  "get_amazon_domain (u ''https://www.amazon.com.au/dp/B08N5WRWNW'') = u ''amazon.com.au''
   \<and> expected_currency_of (u ''https://www.amazon.com.au/dp/B08N5WRWNW'') = u ''USD''
   \<and> get_amazon_domain (u ''B08N5WRWNW'') = u ''amazon.com''
   \<and> expected_currency_of (u ''B08N5WRWNW'') = []"
  by (simp add: get_amazon_domain_def expected_currency_of_def u_def)

section \<open>Properties of identifier extraction\<close>

text \<open>
  C6. Every result of \<open>extract_asin\<close> is claimed to match \<open>[A-Z0-9]{10}\<close>. Under
  \<open>re.IGNORECASE\<close> the set \<open>[A-Z0-9]\<close> also matches U+0130 (capital I with dot above),
  which \<open>str.upper\<close> leaves unchanged: the URL below yields an identifier that begins
  with U+0130.
\<close>

theorem extract_asin_dotted_capital_I:
  "extract_asin (u ''https://www.amazon.com/dp/'' @ [0x130] @ u ''08N5WRWNW'')
     = Some ([0x130] @ u ''08N5WRWNW'')
   \<and> \<not> is_asin ([0x130] @ u ''08N5WRWNW'')"
  by (simp add: regex_eval asin_eval)

section \<open>Properties of the orchestrator\<close>

lemma try_methods_four:
  "try_methods [(n1, f1), (n2, f2), (n3, f3), (n4, f4)] a [] =
    (if usable (f1 a) then (Some ((the_record (f1 a))\<lparr>source_method := n1, asin := a\<rparr>), [n1])
     else if usable (f2 a) then (Some ((the_record (f2 a))\<lparr>source_method := n2, asin := a\<rparr>), [n1, n2])
     else if usable (f3 a) then (Some ((the_record (f3 a))\<lparr>source_method := n3, asin := a\<rparr>), [n1, n2, n3])
     else if usable (f4 a) then (Some ((the_record (f4 a))\<lparr>source_method := n4, asin := a\<rparr>), [n1, n2, n3, n4])
     else (None, [n1, n2, n3, n4]))"
  by (simp add: usable_def the_record_def split: outcome.splits option.splits)

lemma all_less_Suc_conv: "(\<forall>i<Suc n. P i) = (P n \<and> (\<forall>i<n. P i))"
  by (auto simp: less_Suc_eq)

lemma four_Suc: "(4::nat) = Suc (Suc (Suc (Suc 0)))"
  by simp

lemma strategy_names_distinct: "distinct strategy_names"
  by (simp add: strategy_names_def u_def)

text \<open>
  C1. For an input with an extractable identifier, the strategies are invoked in the
  order rainforest_api, scraperapi, rapidapi, direct_amazon; the record of the first
  strategy that yields a non-empty name is returned, tagged with that strategy and the
  identifier, and no later strategy is invoked; an error record is returned exactly when
  no strategy yields a usable record, and it lists the four names in that order, each
  once.
\<close>

theorem get_product_info_fallback_order:
  assumes "extract_asin input_data = Some a"
  shows "case get_product_info env input_data of (r, tried) \<Rightarrow>
     (\<forall>i<4. usable (yields env input_data a ! i)
           \<and> (\<forall>j<i. \<not> usable (yields env input_data a ! j)) \<longrightarrow>
        r = ProductRecord ((the_record (yields env input_data a ! i))
              \<lparr>source_method := strategy_names ! i, asin := a\<rparr>)
        \<and> tried = take (Suc i) strategy_names)
     \<and> (is_error_record r \<longleftrightarrow> (\<forall>i<4. \<not> usable (yields env input_data a ! i)))
     \<and> (is_error_record r \<longrightarrow> r = ErrorRecord a strategy_names \<and> tried = strategy_names)
     \<and> distinct strategy_names"
proof -
  let ?y1 = "fetch_with_rainforest_api env a" and ?y2 = "fetch_with_scraperapi env a"
    and ?y3 = "fetch_with_rapidapi env a" and ?y4 = "fetch_with_direct_amazon env a input_data"
  note defs = get_product_info_def assms yields_def four_Suc all_less_Suc_conv
      strategy_names_def is_error_record_def methods_def try_methods_four
  note [simp del] = try_methods.simps
  consider (first) "usable ?y1"
    | (second) "\<not> usable ?y1" "usable ?y2"
    | (third) "\<not> usable ?y1" "\<not> usable ?y2" "usable ?y3"
    | (fourth) "\<not> usable ?y1" "\<not> usable ?y2" "\<not> usable ?y3" "usable ?y4"
    | (none) "\<not> usable ?y1" "\<not> usable ?y2" "\<not> usable ?y3" "\<not> usable ?y4"
    by blast
  then show ?thesis
  proof cases
    case first
    then show ?thesis using strategy_names_distinct by (simp add: defs)
  next
    case second
    then show ?thesis using strategy_names_distinct by (simp add: defs)
  next
    case third
    then show ?thesis using strategy_names_distinct by (simp add: defs)
  next
    case fourth
    then show ?thesis using strategy_names_distinct by (simp add: defs)
  next
    case none
    then show ?thesis using strategy_names_distinct by (simp add: defs)
  qed
qed

theorem get_product_info_fallback_order_witness:
  "extract_asin (u ''b08n5wrwnw'') = Some (u ''B08N5WRWNW'')
   \<and> usable (yields sample_strategies (u ''b08n5wrwnw'') (u ''B08N5WRWNW'') ! 1)
   \<and> \<not> usable (yields sample_strategies (u ''b08n5wrwnw'') (u ''B08N5WRWNW'') ! 0)
   \<and> get_product_info sample_strategies (u ''b08n5wrwnw'')
       = (ProductRecord (echo_dot\<lparr>source_method := u ''scraperapi'', asin := u ''B08N5WRWNW''\<rparr>),
          [u ''rainforest_api'', u ''scraperapi''])
   \<and> \<not> is_error_record (fst (get_product_info sample_strategies (u ''b08n5wrwnw'')))"
proof -
  have h: "extract_asin (u ''b08n5wrwnw'') = Some (u ''B08N5WRWNW'')"
    by (simp add: regex_eval asin_eval)
  have y: "usable (yields sample_strategies (u ''b08n5wrwnw'') (u ''B08N5WRWNW'') ! 1)"
    "\<not> usable (yields sample_strategies (u ''b08n5wrwnw'') (u ''B08N5WRWNW'') ! 0)"
    "the_record (yields sample_strategies (u ''b08n5wrwnw'') (u ''B08N5WRWNW'') ! 1) = echo_dot"
    by (simp_all add: yields_def sample_strategies_def usable_def the_record_def echo_dot_def u_def)
  obtain r tried where rt: "get_product_info sample_strategies (u ''b08n5wrwnw'') = (r, tried)"
    by (cases "get_product_info sample_strategies (u ''b08n5wrwnw'')")
  from get_product_info_fallback_order [OF h, of sample_strategies] rt
  have "\<forall>i<4. usable (yields sample_strategies (u ''b08n5wrwnw'') (u ''B08N5WRWNW'') ! i)
           \<and> (\<forall>j<i. \<not> usable (yields sample_strategies (u ''b08n5wrwnw'') (u ''B08N5WRWNW'') ! j)) \<longrightarrow>
        r = ProductRecord ((the_record (yields sample_strategies (u ''b08n5wrwnw'') (u ''B08N5WRWNW'') ! i))
              \<lparr>source_method := strategy_names ! i, asin := u ''B08N5WRWNW''\<rparr>)
        \<and> tried = take (Suc i) strategy_names"
    by simp
  from this [rule_format, of 1] y
  have "r = ProductRecord (echo_dot\<lparr>source_method := u ''scraperapi'', asin := u ''B08N5WRWNW''\<rparr>)"
    "tried = [u ''rainforest_api'', u ''scraperapi'']"
    by (simp_all add: strategy_names_def)
  with h y rt show ?thesis by (simp add: is_error_record_def)
qed

section \<open>Properties of price validation\<close>

lemma sub_from_NSet:
  "sub_from ic w (NSet cs) [] s = filter (set_match ic cs) s"
proof (induction s)
  case Nil
  show ?case by (subst sub_from.simps) simp
next
  case (Cons c s)
  show ?case by (subst sub_from.simps) (simp add: Cons)
qed

lemma clean_price_of_filter:
  "clean_price_of s = filter (\<lambda>c. isdigit c \<or> c = 46 \<or> c = 44) s"
proof -
  have "set_match False [Digit, Ch 46, Ch 44] = (\<lambda>c. isdigit c \<or> c = 46 \<or> c = 44)"
    by (auto simp: set_match_def fun_eq_iff)
  then show ?thesis by (simp add: clean_price_of_def re_sub_def sub_from_NSet)
qed

lemma one_hundredth: "to_double 1 100 = Finite (5764607523034235 / 576460752303423488)"
  by (simp add: price_eval)

lemma is_valid_price_iff:
  "is_valid_price s \<longleftrightarrow> 2 \<le> length (clean_price_of s)
     \<and> (\<exists>x. numeric_value s = Some x \<and> \<not> float_lt x (Finite 1) \<and> \<not> float_lt (Finite 1000000) x)"
  by (cases "s = []")
     (auto simp: is_valid_price_def numeric_value_def Let_def clean_price_of_filter split: option.splits)

lemma is_valid_fallback_price_iff:
  "is_valid_fallback_price s \<longleftrightarrow> 2 \<le> length (clean_price_of s)
     \<and> (\<exists>x. numeric_value s = Some x \<and> \<not> float_lt x (to_double 1 100)
           \<and> \<not> float_lt (Finite 10000000) x)"
  by (cases "s = []")
     (auto simp: is_valid_fallback_price_def numeric_value_def Let_def clean_price_of_filter
           split: option.splits)

subsection \<open>Rounding to the nearest double\<close>

text \<open>
  The comparisons of a rounded value with a double are comparisons of the exact value
  with the midpoint between that double and its neighbour: for a double \<open>K * 2 ^ (E - 52)\<close>
  of the binade \<open>E\<close>, the values that round above it are those above
  \<open>(2 * K + 1) * 2 ^ (E - 53)\<close>, the midpoint itself going to the even mantissa.
\<close>

lemma bits_pos: "0 < n \<Longrightarrow> bits n = bits (n div 2) + 1"
  by (subst bits.simps) simp

lemma bits_bounds: "0 < n \<Longrightarrow> 2 ^ (bits n - 1) \<le> n \<and> n < 2 ^ bits n"
proof (induction n rule: bits.induct)
  case (1 n)
  show ?case
  proof (cases "n div 2 = 0")
    case True
    then have "n = 1" using 1(2) by (simp add: div_eq_0_iff) 
    then show ?thesis by (simp add: bits_pos bits.simps [of 0])
  next
    case False
    then have h: "0 < n div 2" by simp
    with 1 have ih: "2 ^ (bits (n div 2) - 1) \<le> n div 2" "n div 2 < 2 ^ bits (n div 2)"
      by auto
    have b: "bits n = bits (n div 2) + 1" using 1(2) by (rule bits_pos)
    have c: "0 < bits (n div 2)" using bits_pos [OF h] by simp
    then have "(2::nat) ^ bits (n div 2) = 2 * 2 ^ (bits (n div 2) - 1)"
      by (cases "bits (n div 2)") simp_all
    then have lo: "2 ^ (bits n - 1) \<le> n" using ih(1) b by simp
    have "n < 2 * (n div 2) + 2" by simp
    moreover have "2 * (n div 2) + 2 \<le> 2 * 2 ^ bits (n div 2)" using ih(2) by simp
    ultimately have "n < 2 ^ bits n" using b by simp
    with lo show ?thesis by simp
  qed
qed

lemma round_half_even_ge: "0 < d \<Longrightarrow> K * d \<le> a \<Longrightarrow> K \<le> round_half_even a d"
proof -
  assume d: "0 < d" and k: "K * d \<le> a"
  then have "K \<le> a div d" by (simp add: less_eq_div_iff_mult_less_eq)
  then show ?thesis by (simp add: round_half_even_def)
qed

lemma round_half_even_le: "0 < d \<Longrightarrow> a \<le> K * d \<Longrightarrow> round_half_even a d \<le> K"
proof -
  assume d: "0 < d" and k: "a \<le> K * d"
  have q: "a div d \<le> K" using d k by (metis div_le_mono div_mult_self_is_m)
  show ?thesis
  proof (cases "a div d = K")
    case True
    then have "a mod d = 0" using k d
      by (metis add_le_same_cancel1 le_zero_eq mult.commute mult_div_mod_eq)
    then show ?thesis using d True by (simp add: round_half_even_def)
  next
    case False
    with q have "a div d + 1 \<le> K" by simp
    then show ?thesis by (simp add: round_half_even_def)
  qed
qed

lemma round_half_even_mono:
  assumes "0 < d" "a \<le> b"
  shows "round_half_even a d \<le> round_half_even b d"
proof (cases "a div d = b div d")
  case True
  have "a mod d \<le> b mod d"
    using assms(2) True by (metis add_le_cancel_left mult_div_mod_eq)
  then show ?thesis using True by (auto simp: round_half_even_def)
next
  case False
  then have "a div d < b div d" using assms(2) by (simp add: div_le_mono le_neq_implies_less)
  then have "round_half_even a d \<le> b div d" by (simp add: round_half_even_def)
  moreover have "b div d \<le> round_half_even b d" by (simp add: round_half_even_def)
  ultimately show ?thesis by simp
qed

lemma round_half_even_scale:
  "0 < c \<Longrightarrow> round_half_even (a * c) (d * c) = round_half_even a d"
  by (simp add: round_half_even_def mod_mult_mult2)



lemma rhe_cases:
  assumes "0 < d"
  obtains f r where "a = f * d + r" "r < d"
    "round_half_even a d =
       (if 2 * r < d then f else if d < 2 * r then f + 1 else if even f then f else f + 1)"
proof
  show "a = (a div d) * d + a mod d" by simp
  show "a mod d < d" using assms by simp
  show "round_half_even a d =
       (if 2 * (a mod d) < d then a div d else if d < 2 * (a mod d) then a div d + 1
        else if even (a div d) then a div d else a div d + 1)"
    by (simp add: round_half_even_def)
qed

lemma rhe_H1: "0 < d \<Longrightarrow> 2 * a < (2 * K + 1) * d \<Longrightarrow> round_half_even a d \<le> K"
proof -
  assume d: "0 < d" and h: "2 * a < (2 * K + 1) * d"
  from d obtain f r where a: "a = f * d + r" and r: "r < d"
    and R: "round_half_even a d =
       (if 2 * r < d then f else if d < 2 * r then f + 1 else if even f then f else f + 1)"
    by (rule rhe_cases)
  have fK: "f \<le> K"
  proof (rule ccontr)
    assume "\<not> f \<le> K"
    then have "K + 1 \<le> f" by simp
    then have "(K + 1) * d \<le> f * d" by (rule mult_le_mono1)
    with a h show False by (simp add: algebra_simps)
  qed
  show ?thesis
  proof (cases "f = K")
    case True
    with a h have "2 * r < d" by (simp add: algebra_simps)
    then show ?thesis using R True by simp
  next
    case False
    with fK have "f + 1 \<le> K" by simp
    then show ?thesis using R by simp
  qed
qed

lemma rhe_H4: "0 < d \<Longrightarrow> 2 * a \<le> (2 * K + 1) * d \<Longrightarrow> even K \<Longrightarrow> round_half_even a d \<le> K"
proof -
  assume d: "0 < d" and h: "2 * a \<le> (2 * K + 1) * d" and ev: "even K"
  from d obtain f r where a: "a = f * d + r" and r: "r < d"
    and R: "round_half_even a d =
       (if 2 * r < d then f else if d < 2 * r then f + 1 else if even f then f else f + 1)"
    by (rule rhe_cases)
  have fK: "f \<le> K"
  proof (rule ccontr)
    assume "\<not> f \<le> K"
    then have "K + 1 \<le> f" by simp
    then have "(K + 1) * d \<le> f * d" by (rule mult_le_mono1)
    with a h d show False by (simp add: algebra_simps)
  qed
  show ?thesis
  proof (cases "f = K")
    case True
    with a h have "2 * r \<le> d" by (simp add: algebra_simps)
    then show ?thesis using R True ev by simp
  next
    case False
    with fK have "f + 1 \<le> K" by simp
    then show ?thesis using R by simp
  qed
qed

lemma rhe_H2: "0 < d \<Longrightarrow> (2 * K + 1) * d < 2 * a \<Longrightarrow> K + 1 \<le> round_half_even a d"
proof -
  assume d: "0 < d" and h: "(2 * K + 1) * d < 2 * a"
  from d obtain f r where a: "a = f * d + r" and r: "r < d"
    and R: "round_half_even a d =
       (if 2 * r < d then f else if d < 2 * r then f + 1 else if even f then f else f + 1)"
    by (rule rhe_cases)
  have fK: "K \<le> f"
  proof (rule ccontr)
    assume "\<not> K \<le> f"
    then have "f + 1 \<le> K" by simp
    then have "(f + 1) * d \<le> K * d" by (rule mult_le_mono1)
    with a h r show False by (simp add: algebra_simps)
  qed
  show ?thesis
  proof (cases "f = K")
    case True
    with a h have "d < 2 * r" by (simp add: algebra_simps)
    then show ?thesis using R True by simp
  next
    case False
    with fK have "K + 1 \<le> f" by simp
    then show ?thesis using R by simp
  qed
qed

lemma rhe_H3: "0 < d \<Longrightarrow> (2 * K + 1) * d \<le> 2 * a \<Longrightarrow> odd K \<Longrightarrow> K + 1 \<le> round_half_even a d"
proof -
  assume d: "0 < d" and h: "(2 * K + 1) * d \<le> 2 * a" and od: "odd K"
  from d obtain f r where a: "a = f * d + r" and r: "r < d"
    and R: "round_half_even a d =
       (if 2 * r < d then f else if d < 2 * r then f + 1 else if even f then f else f + 1)"
    by (rule rhe_cases)
  have fK: "K \<le> f"
  proof (rule ccontr)
    assume "\<not> K \<le> f"
    then have "f + 1 \<le> K" by simp
    then have "(f + 1) * d \<le> K * d" by (rule mult_le_mono1)
    with a h r show False by (simp add: algebra_simps)
  qed
  show ?thesis
  proof (cases "f = K")
    case True
    with a h have "d \<le> 2 * r" by (simp add: algebra_simps)
    then show ?thesis using R True od by simp
  next
    case False
    with fK have "K + 1 \<le> f" by simp
    then show ?thesis using R by simp
  qed
qed

lemma scaled_powi: "scaled m t = of_nat m * 2 powi t"
proof (cases "0 \<le> t")
  case True
  then show ?thesis by (simp add: scaled_def power_int_nonneg_exp)
next
  case False
  then have "(2::rat) powi t = inverse (2 ^ nat (- t))"
    by (simp add: power_int_def power_one_over inverse_eq_divide)
  with False show ?thesis by (simp add: scaled_def divide_inverse)
qed


lemma powi_nonneg: "0 \<le> s \<Longrightarrow> (2::rat) powi s = of_nat (2 ^ nat s)"
  by (simp add: power_int_nonneg_exp)

lemma powi_neg: "s < 0 \<Longrightarrow> (2::rat) powi s = 1 / of_nat (2 ^ nat (- s))"
  by (simp add: power_int_def power_one_over)

lemma grid_le_conv:
  assumes "0 < d"
  shows "(of_nat J * 2 powi s \<le> (of_nat n / of_nat d :: rat)) \<longleftrightarrow>
     (if 0 \<le> s then J * (d * 2 ^ nat s) \<le> n else J * d \<le> n * 2 ^ nat (- s))"
proof (cases "0 \<le> s")
  case True
  have "(of_nat J * of_nat (2 ^ nat s) \<le> (of_nat n / of_nat d :: rat)) \<longleftrightarrow>
      ((of_nat (J * (d * 2 ^ nat s)) :: rat) \<le> of_nat n)"
    using assms by (simp add: pos_le_divide_eq mult_ac)
  also have "\<dots> \<longleftrightarrow> J * (d * 2 ^ nat s) \<le> n" by (simp only: of_nat_le_iff)
  finally show ?thesis using True by (simp only: powi_nonneg if_True)
next
  case False
  then have neg: "s < 0" by simp
  have "(of_nat J * (1 / of_nat (2 ^ nat (- s))) \<le> (of_nat n / of_nat d :: rat)) \<longleftrightarrow>
      ((of_nat (J * d) :: rat) \<le> of_nat (n * 2 ^ nat (- s)))"
    using assms by (simp add: field_simps)
  also have "\<dots> \<longleftrightarrow> J * d \<le> n * 2 ^ nat (- s)" by (simp only: of_nat_le_iff)
  finally show ?thesis using False by (simp only: powi_neg [OF neg] if_False)
qed

lemma grid_ge_conv:
  assumes "0 < d"
  shows "((of_nat n / of_nat d :: rat) \<le> of_nat J * 2 powi s) \<longleftrightarrow>
     (if 0 \<le> s then n \<le> J * (d * 2 ^ nat s) else n * 2 ^ nat (- s) \<le> J * d)"
proof (cases "0 \<le> s")
  case True
  have "((of_nat n / of_nat d :: rat) \<le> of_nat J * of_nat (2 ^ nat s)) \<longleftrightarrow>
      ((of_nat n :: rat) \<le> of_nat (J * (d * 2 ^ nat s)))"
    using assms by (simp add: pos_divide_le_eq mult_ac)
  also have "\<dots> \<longleftrightarrow> n \<le> J * (d * 2 ^ nat s)" by (simp only: of_nat_le_iff)
  finally show ?thesis using True by (simp only: powi_nonneg if_True)
next
  case False
  then have neg: "s < 0" by simp
  have "((of_nat n / of_nat d :: rat) \<le> of_nat J * (1 / of_nat (2 ^ nat (- s)))) \<longleftrightarrow>
      ((of_nat (n * 2 ^ nat (- s)) :: rat) \<le> of_nat (J * d))"
    using assms by (simp add: field_simps)
  also have "\<dots> \<longleftrightarrow> n * 2 ^ nat (- s) \<le> J * d" by (simp only: of_nat_le_iff)
  finally show ?thesis using False by (simp only: powi_neg [OF neg] if_False)
qed

lemma mantissa_ge:
  assumes "0 < d" "of_nat K * 2 powi t \<le> (of_nat n / of_nat d :: rat)"
  shows "K \<le> mantissa n d t"
proof (cases "0 \<le> t")
  case True
  with assms have "K * (d * 2 ^ nat t) \<le> n" by (simp add: grid_le_conv)
  then show ?thesis using True assms(1) by (simp add: mantissa_def round_half_even_ge)
next
  case False
  with assms have "K * d \<le> n * 2 ^ nat (- t)" by (simp add: grid_le_conv)
  then show ?thesis using False assms(1) by (simp add: mantissa_def round_half_even_ge)
qed

lemma mantissa_le:
  assumes "0 < d" "(of_nat n / of_nat d :: rat) \<le> of_nat K * 2 powi t"
  shows "mantissa n d t \<le> K"
proof (cases "0 \<le> t")
  case True
  with assms have "n \<le> K * (d * 2 ^ nat t)" by (simp add: grid_ge_conv)
  then show ?thesis using True assms(1) by (simp add: mantissa_def round_half_even_le)
next
  case False
  with assms have "n * 2 ^ nat (- t) \<le> K * d" by (simp add: grid_ge_conv)
  then show ?thesis using False assms(1) by (simp add: mantissa_def round_half_even_le)
qed

lemma floor_log2_check:
  assumes "0 < d"
  shows "floor_log2 n d = (if (2::rat) powi bit_gap n d \<le> of_nat n / of_nat d
                           then bit_gap n d else bit_gap n d - 1)"
  using grid_le_conv [OF assms, of 1 "bit_gap n d" n] by (simp add: floor_log2_def)

lemma bits_rat:
  assumes "0 < n"
  shows "(2::rat) powi (int (bits n) - 1) \<le> of_nat n" "(of_nat n :: rat) < 2 powi int (bits n)"
proof -
  from bits_bounds [OF assms] have a: "2 ^ (bits n - 1) \<le> n" and b: "n < 2 ^ bits n" by simp_all
  have pos: "0 < bits n" using bits_pos [OF assms] by simp
  then have e: "int (bits n) - 1 = int (bits n - 1)" by simp
  have "(2::rat) powi (int (bits n) - 1) = 2 powi int (bits n - 1)" by (simp only: e)
  also have "\<dots> = of_nat (2 ^ (bits n - 1))" by simp
  also have "\<dots> \<le> of_nat n" using a by (simp only: of_nat_le_iff)
  finally show "(2::rat) powi (int (bits n) - 1) \<le> of_nat n" .
  have "(of_nat n :: rat) < of_nat (2 ^ bits n)" using b by (simp only: of_nat_less_iff)
  then show "(of_nat n :: rat) < 2 powi int (bits n)" by simp
qed

lemma floor_log2_bounds:
  assumes "0 < n" "0 < d"
  shows "(2::rat) powi floor_log2 n d \<le> of_nat n / of_nat d"
    and "(of_nat n / of_nat d :: rat) < 2 powi (floor_log2 n d + 1)"
proof -
  let ?v = "of_nat n / of_nat d :: rat"
  let ?g = "bit_gap n d"
  have up: "?v < 2 powi (?g + 1)"
  proof -
    have "?v < 2 powi int (bits n) / 2 powi (int (bits d) - 1)"
      using bits_rat [OF assms(1)] bits_rat [OF assms(2)] assms
      by (intro frac_less) simp_all
    also have "\<dots> = 2 powi (int (bits n) - (int (bits d) - 1))"
      by (simp add: power_int_diff)
    finally show ?thesis by (simp add: bit_gap_def algebra_simps)
  qed
  have lo: "2 powi (?g - 1) < ?v"
  proof -
    have "2 powi (int (bits n) - 1) / 2 powi int (bits d) < ?v"
      using bits_rat [OF assms(1)] bits_rat [OF assms(2)] assms
      by (intro frac_less2) simp_all
    moreover have "(2::rat) powi (int (bits n) - 1) / 2 powi int (bits d)
        = 2 powi (int (bits n) - 1 - int (bits d))"
      by (simp add: power_int_diff)
    ultimately show ?thesis by (simp add: bit_gap_def algebra_simps)
  qed
  show "(2::rat) powi floor_log2 n d \<le> ?v"
    using lo by (auto simp: floor_log2_check [OF assms(2)])
  show "?v < 2 powi (floor_log2 n d + 1)"
    using up by (auto simp: floor_log2_check [OF assms(2)] not_le)
qed


lemma lt_to_double:
  "0 < n \<Longrightarrow> B < 2 ^ 1024 \<Longrightarrow> float_lt (Finite B) (to_double n d) \<longleftrightarrow> B < rounded n d"
  by (auto simp: to_double_def)

lemma to_double_lt:
  "0 < n \<Longrightarrow> B \<le> 2 ^ 1024 \<Longrightarrow> float_lt (to_double n d) (Finite B) \<longleftrightarrow> rounded n d < B"
  by (auto simp: to_double_def)

lemma pow_powi: "of_nat (2 ^ k) * (2::rat) powi s = 2 powi (int k + s)"
  by (simp add: power_int_add)

lemma rounded_powi: "rounded n d = of_nat (mantissa n d (quantum_exp n d)) * 2 powi quantum_exp n d"
  by (simp add: rounded_def scaled_powi)

lemma rounded_upper:
  assumes "0 < n" "0 < d"
  shows "rounded n d \<le> 2 powi (max (floor_log2 n d) (- 1022) + 1)"
proof -
  let ?e = "max (floor_log2 n d) (- 1022)"
  let ?t = "quantum_exp n d"
  have t: "?t = ?e - 52" by (simp add: quantum_exp_def)
  have "(of_nat n / of_nat d :: rat) < 2 powi (floor_log2 n d + 1)"
    using assms by (rule floor_log2_bounds)
  also have "\<dots> \<le> 2 powi (?e + 1)" by (intro power_int_increasing) simp_all
  also have "\<dots> = of_nat (2 ^ 53) * 2 powi ?t" unfolding pow_powi t by (simp add: add.commute)
  finally have "mantissa n d ?t \<le> 2 ^ 53" using assms(2) by (intro mantissa_le) simp_all
  then have "(of_nat (mantissa n d ?t) :: rat) \<le> of_nat (2 ^ 53)" by (simp only: of_nat_le_iff)
  then have "rounded n d \<le> of_nat (2 ^ 53) * 2 powi ?t"
    unfolding rounded_powi by (intro mult_right_mono) simp_all
  also have "\<dots> = 2 powi (?e + 1)" unfolding pow_powi t by (simp add: add.commute)
  finally show ?thesis .
qed

lemma rounded_lower:
  assumes "0 < n" "0 < d" "- 1022 \<le> floor_log2 n d"
  shows "2 powi floor_log2 n d \<le> rounded n d"
proof -
  let ?t = "quantum_exp n d"
  have t: "?t = floor_log2 n d - 52" using assms(3) by (simp add: quantum_exp_def)
  have e: "of_nat (2 ^ 52) * (2::rat) powi ?t = 2 powi floor_log2 n d" unfolding pow_powi t by simp
  have "of_nat (2 ^ 52) * 2 powi ?t \<le> (of_nat n / of_nat d :: rat)"
    unfolding e using assms(1,2) by (rule floor_log2_bounds)
  then have "2 ^ 52 \<le> mantissa n d ?t" using assms(2) by (intro mantissa_ge) simp_all
  then have "(of_nat (2 ^ 52) :: rat) \<le> of_nat (mantissa n d ?t)" by (simp only: of_nat_le_iff)
  then have "of_nat (2 ^ 52) * 2 powi ?t \<le> rounded n d"
    unfolding rounded_powi by (intro mult_right_mono) simp_all
  then show ?thesis unfolding e .
qed

lemma half_exp: "t < 0 \<Longrightarrow> (2::nat) ^ nat (1 - t) = 2 * 2 ^ nat (- t)"
proof -
  assume "t < 0"
  then have "nat (1 - t) = Suc (nat (- t))" by simp
  then show ?thesis by simp
qed

lemma mantissa_half_even:
  assumes "0 < d" "t < 0" "even K"
  shows "K < mantissa n d t \<longleftrightarrow> of_nat (2 * K + 1) * 2 powi (t - 1) < (of_nat n / of_nat d :: rat)"
proof -
  have m: "mantissa n d t = round_half_even (n * 2 ^ nat (- t)) d"
    using assms(2) by (simp add: mantissa_def)
  have "(of_nat (2 * K + 1) * 2 powi (t - 1) < (of_nat n / of_nat d :: rat)) \<longleftrightarrow>
      \<not> ((of_nat n / of_nat d :: rat) \<le> of_nat (2 * K + 1) * 2 powi (t - 1))"
    by auto
  also have "\<dots> \<longleftrightarrow> \<not> (n * 2 ^ nat (- (t - 1)) \<le> (2 * K + 1) * d)"
    using assms(2) by (simp only: grid_ge_conv [OF assms(1)]) simp
  also have "\<dots> \<longleftrightarrow> (2 * K + 1) * d < 2 * (n * 2 ^ nat (- t))"
    by (simp add: half_exp [OF assms(2)] not_le mult_ac)
  finally have c: "(of_nat (2 * K + 1) * 2 powi (t - 1) < (of_nat n / of_nat d :: rat)) \<longleftrightarrow>
      (2 * K + 1) * d < 2 * (n * 2 ^ nat (- t))" .
  show ?thesis
  proof
    assume "K < mantissa n d t"
    show "of_nat (2 * K + 1) * 2 powi (t - 1) < (of_nat n / of_nat d :: rat)"
    proof (rule ccontr)
      assume "\<not> ?thesis"
      then have "2 * (n * 2 ^ nat (- t)) \<le> (2 * K + 1) * d" using c by simp
      then have "mantissa n d t \<le> K" unfolding m using assms by (intro rhe_H4)
      with \<open>K < mantissa n d t\<close> show False by simp
    qed
  next
    assume "of_nat (2 * K + 1) * 2 powi (t - 1) < (of_nat n / of_nat d :: rat)"
    then have "(2 * K + 1) * d < 2 * (n * 2 ^ nat (- t))" using c by simp
    then have "K + 1 \<le> mantissa n d t" unfolding m using assms by (intro rhe_H2)
    then show "K < mantissa n d t" by simp
  qed
qed

lemma mantissa_half_odd:
  assumes "0 < d" "t < 0" "odd K"
  shows "K < mantissa n d t \<longleftrightarrow> of_nat (2 * K + 1) * 2 powi (t - 1) \<le> (of_nat n / of_nat d :: rat)"
proof -
  have m: "mantissa n d t = round_half_even (n * 2 ^ nat (- t)) d"
    using assms(2) by (simp add: mantissa_def)
  have "(of_nat (2 * K + 1) * 2 powi (t - 1) \<le> (of_nat n / of_nat d :: rat)) \<longleftrightarrow>
      (2 * K + 1) * d \<le> n * 2 ^ nat (- (t - 1))"
    using assms(2) by (simp only: grid_le_conv [OF assms(1)]) simp
  also have "\<dots> \<longleftrightarrow> (2 * K + 1) * d \<le> 2 * (n * 2 ^ nat (- t))"
    by (simp add: half_exp [OF assms(2)] mult_ac)
  finally have c: "(of_nat (2 * K + 1) * 2 powi (t - 1) \<le> (of_nat n / of_nat d :: rat)) \<longleftrightarrow>
      (2 * K + 1) * d \<le> 2 * (n * 2 ^ nat (- t))" .
  show ?thesis
  proof
    assume "K < mantissa n d t"
    show "of_nat (2 * K + 1) * 2 powi (t - 1) \<le> (of_nat n / of_nat d :: rat)"
    proof (rule ccontr)
      assume "\<not> ?thesis"
      then have "2 * (n * 2 ^ nat (- t)) < (2 * K + 1) * d" using c by simp
      then have "mantissa n d t \<le> K" unfolding m using assms by (intro rhe_H1)
      with \<open>K < mantissa n d t\<close> show False by simp
    qed
  next
    assume "of_nat (2 * K + 1) * 2 powi (t - 1) \<le> (of_nat n / of_nat d :: rat)"
    then have "(2 * K + 1) * d \<le> 2 * (n * 2 ^ nat (- t))" using c by simp
    then have "K + 1 \<le> mantissa n d t" unfolding m using assms by (intro rhe_H3)
    then show "K < mantissa n d t" by simp
  qed
qed


lemma of_nat_mult_le: "a \<le> b \<Longrightarrow> 0 < q \<Longrightarrow> (of_nat a :: rat) * q \<le> of_nat b * q"
  by (intro mult_right_mono) simp_all

lemma of_nat_mult_less: "a < b \<Longrightarrow> 0 < q \<Longrightarrow> (of_nat a :: rat) * q < of_nat b * q"
  by (intro mult_strict_right_mono) simp_all

lemma of_nat_mult_less_iff: "0 < q \<Longrightarrow> (of_nat a :: rat) * q < of_nat b * q \<longleftrightarrow> a < b"
  by (simp add: mult_less_cancel_right_pos)

lemma powi_half: "(2::rat) powi (E - 52) = 2 * 2 powi (E - 53)"
proof -
  have "(2::rat) powi (E - 52) = 2 powi (1 + (E - 53))" by simp
  also have "\<dots> = 2 powi 1 * 2 powi (E - 53)" by (rule power_int_add) simp
  finally show ?thesis by simp
qed

lemma powi_pos: "0 < (2::rat) powi s"
  by simp

lemma grid_facts:
  assumes "2 ^ 52 \<le> K" "K < 2 ^ 53"
  shows "(2::rat) powi E \<le> of_nat K * 2 powi (E - 52)"
    and "of_nat K * (2::rat) powi (E - 52) < 2 powi (E + 1)"
    and "of_nat (K + 1) * (2::rat) powi (E - 52) \<le> 2 powi (E + 1)"
    and "of_nat K * (2::rat) powi (E - 52) < of_nat (2 * K + 1) * 2 powi (E - 53)"
    and "of_nat (2 * K + 1) * (2::rat) powi (E - 53) < of_nat (K + 1) * 2 powi (E - 52)"
    and "of_nat (2 * K + 1) * (2::rat) powi (E - 53) < 2 powi (E + 1)"
proof -
  have p52: "of_nat (2 ^ 52) * (2::rat) powi (E - 52) = 2 powi E"
    unfolding pow_powi by simp
  have p53: "of_nat (2 ^ 53) * (2::rat) powi (E - 52) = 2 powi (E + 1)"
    unfolding pow_powi by (simp add: add.commute)
  have p54: "of_nat (2 ^ 54) * (2::rat) powi (E - 53) = 2 powi (E + 1)"
    unfolding pow_powi by (simp add: add.commute)
  show "(2::rat) powi E \<le> of_nat K * 2 powi (E - 52)"
    using of_nat_mult_le [OF assms(1) powi_pos, of "E - 52"] unfolding p52 .
  show "of_nat K * (2::rat) powi (E - 52) < 2 powi (E + 1)"
    using of_nat_mult_less [OF assms(2) powi_pos, of "E - 52"] unfolding p53 .
  have "K + 1 \<le> 2 ^ 53" using assms(2) by simp
  then show "of_nat (K + 1) * (2::rat) powi (E - 52) \<le> 2 powi (E + 1)"
    using of_nat_mult_le [OF _ powi_pos, of "K + 1" "2 ^ 53" "E - 52"] unfolding p53 by blast
  have a: "of_nat (2 * K + 1) * (2::rat) powi (E - 53) = of_nat K * 2 powi (E - 52) + 2 powi (E - 53)"
    unfolding powi_half by (simp add: algebra_simps)
  show "of_nat K * (2::rat) powi (E - 52) < of_nat (2 * K + 1) * 2 powi (E - 53)"
    unfolding a using powi_pos [of "E - 53"] by simp
  have b: "of_nat (K + 1) * (2::rat) powi (E - 52) = of_nat (2 * K + 1) * 2 powi (E - 53) + 2 powi (E - 53)"
    unfolding powi_half by (simp add: algebra_simps)
  show "of_nat (2 * K + 1) * (2::rat) powi (E - 53) < of_nat (K + 1) * 2 powi (E - 52)"
    unfolding b using powi_pos [of "E - 53"] by simp
  have "2 * K + 1 < 2 ^ 54" using assms(2) by simp
  then show "of_nat (2 * K + 1) * (2::rat) powi (E - 53) < 2 powi (E + 1)"
    using of_nat_mult_less [OF _ powi_pos, of "2 * K + 1" "2 ^ 54" "E - 53"] unfolding p54 by blast
qed

lemma powi_le_big: "E < 52 \<Longrightarrow> (2::rat) powi (E + 1) \<le> 2 ^ 1024"
proof -
  assume "E < 52"
  then have "(2::rat) powi (E + 1) \<le> 2 powi 1024" by (intro power_int_increasing) simp_all
  then show ?thesis by simp
qed

lemma rounded_at:
  assumes "floor_log2 n d = E" "- 1022 \<le> E"
  shows "rounded n d = of_nat (mantissa n d (E - 52)) * 2 powi (E - 52)"
  using assms by (simp add: rounded_powi quantum_exp_def)

lemma threshold_above:
  assumes d: "0 < d" and E: "- 1021 \<le> E" "E < 52" and K: "2 ^ 52 \<le> K" "K < 2 ^ 53" and ev: "even K"
  shows "float_lt (Finite (of_nat K * 2 powi (E - 52))) (to_double n d) \<longleftrightarrow>
         of_nat (2 * K + 1) * 2 powi (E - 53) < (of_nat n / of_nat d :: rat)"
proof (cases "n = 0")
  case True
  have "0 \<le> of_nat K * (2::rat) powi (E - 52)" by simp
  then have a: "\<not> of_nat K * (2::rat) powi (E - 52) < 0" by (simp only: not_less)
  have "0 \<le> of_nat (2 * K + 1) * (2::rat) powi (E - 53)" by simp
  then have b: "\<not> of_nat (2 * K + 1) * (2::rat) powi (E - 53) < 0" by (simp only: not_less)
  have td: "to_double n d = Finite 0" using True by (simp add: to_double_def)
  have nd: "(of_nat n / of_nat d :: rat) = 0" using True by simp
  show ?thesis unfolding td nd float_lt.simps using a b by blast
next
  case False
  then have n: "0 < n" by simp
  note g = grid_facts [OF K, of E]
  have big: "of_nat K * (2::rat) powi (E - 52) < 2 ^ 1024"
    using g(2) powi_le_big [OF E(2)] by simp
  have l: "float_lt (Finite (of_nat K * 2 powi (E - 52))) (to_double n d) \<longleftrightarrow>
      of_nat K * 2 powi (E - 52) < rounded n d"
    using n big by (rule lt_to_double)
  note fb = floor_log2_bounds [OF n d]
  consider (less) "floor_log2 n d < E" | (equal) "floor_log2 n d = E" | (greater) "E < floor_log2 n d"
    by linarith
  then show ?thesis
  proof cases
    case less
    have "rounded n d \<le> 2 powi (max (floor_log2 n d) (- 1022) + 1)" using n d by (rule rounded_upper)
    also have "\<dots> \<le> 2 powi E" using less E(1) by (intro power_int_increasing) simp_all
    also have "\<dots> \<le> of_nat K * 2 powi (E - 52)" by (rule g(1))
    finally have 1: "\<not> of_nat K * 2 powi (E - 52) < rounded n d" by simp
    have "(of_nat n / of_nat d :: rat) < 2 powi (floor_log2 n d + 1)" by (rule fb(2))
    also have "\<dots> \<le> 2 powi E" using less by (intro power_int_increasing) simp_all
    also have "\<dots> \<le> of_nat K * 2 powi (E - 52)" by (rule g(1))
    also have "\<dots> < of_nat (2 * K + 1) * 2 powi (E - 53)" by (rule g(4))
    finally have 2: "\<not> of_nat (2 * K + 1) * 2 powi (E - 53) < (of_nat n / of_nat d :: rat)" by simp
    show ?thesis unfolding l using 1 2 by blast
  next
    case equal
    have r: "rounded n d = of_nat (mantissa n d (E - 52)) * 2 powi (E - 52)"
      using equal E(1) by (intro rounded_at) simp_all
    have t: "E - 52 < 0" using E(2) by simp
    have e53: "E - 52 - 1 = E - 53" by simp
    have "of_nat K * 2 powi (E - 52) < rounded n d \<longleftrightarrow> K < mantissa n d (E - 52)"
      unfolding r by (rule of_nat_mult_less_iff) (rule powi_pos)
    also have "\<dots> \<longleftrightarrow> of_nat (2 * K + 1) * 2 powi (E - 53) < (of_nat n / of_nat d :: rat)"
      using mantissa_half_even [OF d t ev, of n] unfolding e53 .
    finally show ?thesis unfolding l .
  next
    case greater
    have ge: "(2::rat) powi (E + 1) \<le> 2 powi floor_log2 n d"
      using greater by (intro power_int_increasing) simp_all
    have "of_nat K * (2::rat) powi (E - 52) < 2 powi (E + 1)" by (rule g(2))
    also note ge
    also have "2 powi floor_log2 n d \<le> rounded n d"
      using n d greater E(1) by (intro rounded_lower) simp_all
    finally have 1: "of_nat K * 2 powi (E - 52) < rounded n d" .
    have "of_nat (2 * K + 1) * (2::rat) powi (E - 53) < 2 powi (E + 1)" by (rule g(6))
    also note ge
    also have "2 powi floor_log2 n d \<le> (of_nat n / of_nat d :: rat)" by (rule fb(1))
    finally have 2: "of_nat (2 * K + 1) * 2 powi (E - 53) < (of_nat n / of_nat d :: rat)" .
    show ?thesis unfolding l using 1 2 by blast
  qed
qed

lemma threshold_below:
  assumes d: "0 < d" and E: "- 1021 \<le> E" "E < 52" and K: "2 ^ 52 \<le> K" "K < 2 ^ 53"
  shows "float_lt (to_double n d) (Finite (of_nat (K + 1) * 2 powi (E - 52))) \<longleftrightarrow>
         (if odd K then (of_nat n / of_nat d :: rat) < of_nat (2 * K + 1) * 2 powi (E - 53)
          else (of_nat n / of_nat d :: rat) \<le> of_nat (2 * K + 1) * 2 powi (E - 53))"
proof (cases "n = 0")
  case True
  have a: "0 < of_nat (K + 1) * (2::rat) powi (E - 52)"
    by (intro mult_pos_pos powi_pos) simp
  have b: "0 < of_nat (2 * K + 1) * (2::rat) powi (E - 53)"
    by (intro mult_pos_pos powi_pos) simp
  then have c: "0 \<le> of_nat (2 * K + 1) * (2::rat) powi (E - 53)" by (rule less_imp_le)
  have td: "to_double n d = Finite 0" using True by (simp add: to_double_def)
  have nd: "(of_nat n / of_nat d :: rat) = 0" using True by simp
  show ?thesis unfolding td nd float_lt.simps using a b c
    by (cases "odd K") (simp_all only: if_True if_False simp_thms)
next
  case False
  then have n: "0 < n" by simp
  note g = grid_facts [OF K, of E]
  have big: "of_nat (K + 1) * (2::rat) powi (E - 52) \<le> 2 ^ 1024"
    using g(3) powi_le_big [OF E(2)] by simp
  have l: "float_lt (to_double n d) (Finite (of_nat (K + 1) * 2 powi (E - 52))) \<longleftrightarrow>
      rounded n d < of_nat (K + 1) * 2 powi (E - 52)"
    using n big by (rule to_double_lt)
  note fb = floor_log2_bounds [OF n d]
  consider (less) "floor_log2 n d < E" | (equal) "floor_log2 n d = E" | (greater) "E < floor_log2 n d"
    by linarith
  then show ?thesis
  proof cases
    case less
    have k: "of_nat K * (2::rat) powi (E - 52) < of_nat (K + 1) * 2 powi (E - 52)"
      using g(4) g(5) by simp
    have "rounded n d \<le> 2 powi (max (floor_log2 n d) (- 1022) + 1)" using n d by (rule rounded_upper)
    also have "\<dots> \<le> 2 powi E" using less E(1) by (intro power_int_increasing) simp_all
    also have "\<dots> \<le> of_nat K * 2 powi (E - 52)" by (rule g(1))
    also note k
    finally have 1: "rounded n d < of_nat (K + 1) * 2 powi (E - 52)" .
    have "(of_nat n / of_nat d :: rat) < 2 powi (floor_log2 n d + 1)" by (rule fb(2))
    also have "\<dots> \<le> 2 powi E" using less by (intro power_int_increasing) simp_all
    also have "\<dots> \<le> of_nat K * 2 powi (E - 52)" by (rule g(1))
    also have "\<dots> < of_nat (2 * K + 1) * 2 powi (E - 53)" by (rule g(4))
    finally have 2: "(of_nat n / of_nat d :: rat) < of_nat (2 * K + 1) * 2 powi (E - 53)" .
    then have 3: "(of_nat n / of_nat d :: rat) \<le> of_nat (2 * K + 1) * 2 powi (E - 53)"
      by (rule less_imp_le)
    show ?thesis unfolding l using 1 2 3
      by (cases "odd K") (simp_all only: if_True if_False simp_thms)
  next
    case equal
    have r: "rounded n d = of_nat (mantissa n d (E - 52)) * 2 powi (E - 52)"
      using equal E(1) by (intro rounded_at) simp_all
    have t: "E - 52 < 0" using E(2) by simp
    have e53: "E - 52 - 1 = E - 53" by simp
    have "rounded n d < of_nat (K + 1) * 2 powi (E - 52) \<longleftrightarrow> mantissa n d (E - 52) < K + 1"
      unfolding r by (rule of_nat_mult_less_iff) (rule powi_pos)
    also have "\<dots> \<longleftrightarrow> \<not> K < mantissa n d (E - 52)" by auto
    finally have c: "rounded n d < of_nat (K + 1) * 2 powi (E - 52) \<longleftrightarrow> \<not> K < mantissa n d (E - 52)" .
    show ?thesis
    proof (cases "odd K")
      case True
      have "K < mantissa n d (E - 52) \<longleftrightarrow>
          of_nat (2 * K + 1) * 2 powi (E - 53) \<le> (of_nat n / of_nat d :: rat)"
        using mantissa_half_odd [OF d t True, of n] unfolding e53 .
      then show ?thesis unfolding l c using True by (simp only: if_True not_le simp_thms)
    next
      case False
      then have "even K" by simp
      then have "K < mantissa n d (E - 52) \<longleftrightarrow>
          of_nat (2 * K + 1) * 2 powi (E - 53) < (of_nat n / of_nat d :: rat)"
        using mantissa_half_even [OF d t, of K n] unfolding e53 by blast
      then show ?thesis unfolding l c using False by (simp only: if_False not_less simp_thms)
    qed
  next
    case greater
    have ge: "(2::rat) powi (E + 1) \<le> 2 powi floor_log2 n d"
      using greater by (intro power_int_increasing) simp_all
    have "of_nat (K + 1) * (2::rat) powi (E - 52) \<le> 2 powi (E + 1)" by (rule g(3))
    also note ge
    also have "2 powi floor_log2 n d \<le> rounded n d"
      using n d greater E(1) by (intro rounded_lower) simp_all
    finally have 1: "\<not> rounded n d < of_nat (K + 1) * 2 powi (E - 52)" by simp
    have "of_nat (2 * K + 1) * (2::rat) powi (E - 53) < 2 powi (E + 1)" by (rule g(6))
    also note ge
    also have "2 powi floor_log2 n d \<le> (of_nat n / of_nat d :: rat)" by (rule fb(1))
    finally have 2: "of_nat (2 * K + 1) * 2 powi (E - 53) < (of_nat n / of_nat d :: rat)" .
    then have 3: "\<not> (of_nat n / of_nat d :: rat) \<le> of_nat (2 * K + 1) * 2 powi (E - 53)"
      and 4: "\<not> (of_nat n / of_nat d :: rat) < of_nat (2 * K + 1) * 2 powi (E - 53)" by simp_all
    show ?thesis unfolding l using 1 3 4
      by (cases "odd K") (simp_all only: if_True if_False simp_thms)
  qed
qed


lemma below_one:
  assumes "0 < d"
  shows "float_lt (to_double n d) (Finite 1) \<longleftrightarrow> (of_nat n / of_nat d :: rat) < 1 - 1 / 2 ^ 54"
proof -
  have K: "(2::nat) ^ 52 \<le> 9007199254740991" "(9007199254740991::nat) < 2 ^ 53" by simp_all
  have E: "- 1021 \<le> (- 1 :: int)" "(- 1 :: int) < 52" by simp_all
  have o: "odd (9007199254740991::nat)" by simp
  have a: "of_nat (9007199254740991 + 1) * (2::rat) powi (- 1 - 52) = 1" by simp
  have b: "of_nat (2 * 9007199254740991 + 1) * (2::rat) powi (- 1 - 53) = 1 - 1 / 2 ^ 54" by simp
  show ?thesis using threshold_below [OF assms E K, of n] unfolding a b by (simp only: o if_True simp_thms)
qed

lemma above_million:
  assumes "0 < d"
  shows "float_lt (Finite 1000000) (to_double n d) \<longleftrightarrow>
         1000000 + 1 / 2 ^ 34 < (of_nat n / of_nat d :: rat)"
proof -
  have K: "(2::nat) ^ 52 \<le> 8589934592000000" "(8589934592000000::nat) < 2 ^ 53" by simp_all
  have E: "- 1021 \<le> (19 :: int)" "(19 :: int) < 52" by simp_all
  have e: "even (8589934592000000::nat)" by simp
  have a: "of_nat 8589934592000000 * (2::rat) powi (19 - 52) = 1000000" by simp
  have b: "of_nat (2 * 8589934592000000 + 1) * (2::rat) powi (19 - 53) = 1000000 + 1 / 2 ^ 34" by simp
  show ?thesis using threshold_above [OF assms E K e, of n] unfolding a b .
qed

lemma below_hundredth:
  assumes "0 < d"
  shows "float_lt (to_double n d) (Finite (5764607523034235 / 576460752303423488)) \<longleftrightarrow>
         (of_nat n / of_nat d :: rat) \<le> 11529215046068469 / 2 ^ 60"
proof -
  have K: "(2::nat) ^ 52 \<le> 5764607523034234" "(5764607523034234::nat) < 2 ^ 53" by simp_all
  have E: "- 1021 \<le> (- 7 :: int)" "(- 7 :: int) < 52" by simp_all
  have e: "\<not> odd (5764607523034234::nat)" by simp
  have a: "of_nat (5764607523034234 + 1) * (2::rat) powi (- 7 - 52)
      = 5764607523034235 / 576460752303423488" by simp
  have b: "of_nat (2 * 5764607523034234 + 1) * (2::rat) powi (- 7 - 53)
      = 11529215046068469 / 2 ^ 60" by simp
  show ?thesis using threshold_below [OF assms E K, of n] unfolding a b by (simp only: e if_False simp_thms)
qed

lemma above_ten_million:
  assumes "0 < d"
  shows "float_lt (Finite 10000000) (to_double n d) \<longleftrightarrow>
         10000000 + 1 / 2 ^ 30 < (of_nat n / of_nat d :: rat)"
proof -
  have K: "(2::nat) ^ 52 \<le> 5368709120000000" "(5368709120000000::nat) < 2 ^ 53" by simp_all
  have E: "- 1021 \<le> (23 :: int)" "(23 :: int) < 52" by simp_all
  have e: "even (5368709120000000::nat)" by simp
  have a: "of_nat 5368709120000000 * (2::rat) powi (23 - 52) = 10000000" by simp
  have b: "of_nat (2 * 5368709120000000 + 1) * (2::rat) powi (23 - 53) = 10000000 + 1 / 2 ^ 30" by simp
  show ?thesis using threshold_above [OF assms E K e, of n] unfolding a b .
qed

lemma decimal_and_numeric:
  "decimal_of (replace (u '','') [] (clean_price_of s)) = None
     \<Longrightarrow> numeric_value s = None \<and> decimal_value s = None"
  "decimal_of (replace (u '','') [] (clean_price_of s)) = Some (n, k)
     \<Longrightarrow> numeric_value s = Some (to_double n (10 ^ k)) \<and> decimal_value s = Some (of_nat n / of_nat (10 ^ k))"
  by (simp_all add: numeric_value_def decimal_value_def float_of_def)

lemma is_valid_price_exact:
  "is_valid_price s \<longleftrightarrow> 2 \<le> length (clean_price_of s)
     \<and> (\<exists>v. decimal_value s = Some v \<and> 1 - 1 / 2 ^ 54 \<le> v \<and> v \<le> 1000000 + 1 / 2 ^ 34)"
proof (cases "decimal_of (replace (u '','') [] (clean_price_of s))")
  case None
  then show ?thesis using decimal_and_numeric(1) [of s] by (simp add: is_valid_price_iff)
next
  case (Some p)
  obtain n k where p: "p = (n, k)" by (cases p)
  have d: "0 < (10::nat) ^ k" by simp
  note v = decimal_and_numeric(2) [OF Some [unfolded p]]
  show ?thesis
    unfolding is_valid_price_iff
    by (simp only: v option.inject ex_simps simp_thms below_one [OF d] above_million [OF d]
        not_less)
qed

lemma is_valid_fallback_price_exact:
  "is_valid_fallback_price s \<longleftrightarrow> 2 \<le> length (clean_price_of s)
     \<and> (\<exists>v. decimal_value s = Some v \<and> 11529215046068469 / 2 ^ 60 < v
           \<and> v \<le> 10000000 + 1 / 2 ^ 30)"
proof (cases "decimal_of (replace (u '','') [] (clean_price_of s))")
  case None
  then show ?thesis using decimal_and_numeric(1) [of s] by (simp add: is_valid_fallback_price_iff)
next
  case (Some p)
  obtain n k where p: "p = (n, k)" by (cases p)
  have d: "0 < (10::nat) ^ k" by simp
  note v = decimal_and_numeric(2) [OF Some [unfolded p]]
  show ?thesis
    unfolding is_valid_fallback_price_iff one_hundredth
    by (simp only: v option.inject ex_simps simp_thms below_hundredth [OF d] above_ten_million [OF d]
        not_less not_le)
qed

text \<open>
  C4, as stated, fails: \<open>float\<close> rounds to the nearest double, so a candidate whose
  decimal value is just below 1 is read as 1.0 and accepted by the structured
  validator, and one just below 0.01 is accepted by the fallback validator.
\<close>

theorem value_below_bound_accepted:
  "decimal_value (u ''0.99999999999999999'') = Some (99999999999999999 / 100000000000000000)
   \<and> (99999999999999999 / 100000000000000000 :: rat) < 1
   \<and> numeric_value (u ''0.99999999999999999'') = Some (Finite 1)
   \<and> is_valid_price (u ''0.99999999999999999'')
   \<and> decimal_value (u ''0.0099999999999999999999'')
       = Some (99999999999999999999 / 10000000000000000000000)
   \<and> (99999999999999999999 / 10000000000000000000000 :: rat) < 1 / 100
   \<and> is_valid_fallback_price (u ''0.0099999999999999999999'')"
  by (simp add: regex_eval price_eval)

text \<open>
  C4, amended. Structured validation rejects \<open>0\<close> and \<open>0.5\<close> and every candidate whose
  numeric value, rounded to the nearest double as \<open>float\<close> does, is below 1 or above
  1000000; it accepts exactly the candidates with at least two cleaned characters whose
  decimal value \<open>v\<close> satisfies \<open>1 - 1 / 2 ^ 54 \<le> v \<le> 1000000 + 1 / 2 ^ 34\<close>. Fallback validation
  accepts exactly the candidates with at least two cleaned characters whose decimal
  value \<open>v\<close> satisfies \<open>11529215046068469 / 2 ^ 60 < v \<le> 10000000 + 1 / 2 ^ 30\<close>, the lower
  bound being the midpoint between the double 0.01 and the double below it. The
  cleaning keeps the decimal digits, full stops and commas of the candidate and
  nothing else.
\<close>

theorem price_validation:
  "\<not> is_valid_price (u ''0'') \<and> \<not> is_valid_price (u ''0.5'')
   \<and> (numeric_value s = Some x \<and> (float_lt x (Finite 1) \<or> float_lt (Finite 1000000) x)
        \<longrightarrow> \<not> is_valid_price s)
   \<and> (is_valid_price s \<longleftrightarrow>
        2 \<le> length (clean_price_of s)
        \<and> (\<exists>v. decimal_value s = Some v \<and> 1 - 1 / 2 ^ 54 \<le> v \<and> v \<le> 1000000 + 1 / 2 ^ 34))
   \<and> (is_valid_fallback_price s \<longleftrightarrow>
        2 \<le> length (clean_price_of s)
        \<and> (\<exists>v. decimal_value s = Some v \<and> 11529215046068469 / 2 ^ 60 < v
              \<and> v \<le> 10000000 + 1 / 2 ^ 30))
   \<and> clean_price_of s = filter (\<lambda>c. isdigit c \<or> c = 46 \<or> c = 44) s"
proof -
  have "\<not> is_valid_price (u ''0'')" "\<not> is_valid_price (u ''0.5'')"
    by (simp_all add: regex_eval price_eval)
  moreover have "numeric_value s = Some x \<and> (float_lt x (Finite 1) \<or> float_lt (Finite 1000000) x)
      \<longrightarrow> \<not> is_valid_price s"
    by (auto simp: is_valid_price_iff)
  ultimately show ?thesis
    using is_valid_price_exact [of s] is_valid_fallback_price_exact [of s]
      clean_price_of_filter [of s]
    by blast
qed

theorem price_validation_witness:
  "numeric_value (u ''$0.75'') = Some (Finite (3 / 4)) \<and> float_lt (Finite (3 / 4)) (Finite 1)
   \<and> decimal_value (u ''$0.75'') = Some (3 / 4)
   \<and> \<not> is_valid_price (u ''$0.75'') \<and> is_valid_fallback_price (u ''$0.75'')
   \<and> clean_price_of (u ''$0.75'') = u ''0.75''"
proof -
  have n: "numeric_value (u ''$0.75'') = Some (Finite (3 / 4))"
    by (simp add: regex_eval price_eval)
  have v: "decimal_value (u ''$0.75'') = Some (3 / 4)"
    by (simp add: regex_eval price_eval)
  have c: "clean_price_of (u ''$0.75'') = u ''0.75''"
    by (simp add: regex_eval price_eval)
  note t = price_validation [of "u ''$0.75''" "Finite (3 / 4)"]
  have small: "float_lt (Finite (3 / 4)) (Finite 1)" by simp
  from t n small have r: "\<not> is_valid_price (u ''$0.75'')" by blast
  have low: "11529215046068469 / 2 ^ 60 < (3 / 4 :: rat)" by simp
  have high: "(3 / 4 :: rat) \<le> 10000000 + 1 / 2 ^ 30" by simp
  from v low high have "decimal_value (u ''$0.75'') = Some (3 / 4)
      \<and> 11529215046068469 / 2 ^ 60 < (3 / 4 :: rat) \<and> (3 / 4 :: rat) \<le> 10000000 + 1 / 2 ^ 30"
    by blast
  then have "\<exists>v. decimal_value (u ''$0.75'') = Some v \<and> 11529215046068469 / 2 ^ 60 < v
      \<and> v \<le> 10000000 + 1 / 2 ^ 30"
    by (rule exI)
  moreover have "2 \<le> length (clean_price_of (u ''$0.75''))"
    using c by (simp add: u_def)
  ultimately have "is_valid_fallback_price (u ''$0.75'')" using t by blast
  with n v c r small show ?thesis by blast
qed

section \<open>Properties of content validity\<close>

lemma startswith_iff: "startswith s p \<longleftrightarrow> (\<exists>post. s = p @ post)"
  by (induction s p rule: startswith.induct) auto

lemma contains_iff: "contains s p \<longleftrightarrow> (\<exists>pre post. s = pre @ p @ post)"
proof (induction s)
  case Nil
  show ?case by auto
next
  case (Cons c s)
  show ?case
  proof
    assume "contains (c # s) p"
    then consider "startswith (c # s) p" | "contains s p" by auto
    then show "\<exists>pre post. c # s = pre @ p @ post"
    proof cases
      case 1
      then obtain post where "c # s = p @ post" by (auto simp: startswith_iff)
      then have "c # s = [] @ p @ post" by simp
      then show ?thesis by blast
    next
      case 2
      then obtain pre post where "s = pre @ p @ post" using Cons by auto
      then have "c # s = (c # pre) @ p @ post" by simp
      then show ?thesis by blast
    qed
  next
    assume "\<exists>pre post. c # s = pre @ p @ post"
    then obtain pre post where e: "c # s = pre @ p @ post" by auto
    show "contains (c # s) p"
    proof (cases pre)
      case Nil
      with e have "startswith (c # s) p" by (auto simp: startswith_iff)
      then show ?thesis by simp
    next
      case (Cons a pre')
      with e have "s = pre' @ p @ post" by simp
      then have "contains s p" using Cons.IH by blast
      then show ?thesis by simp
    qed
  qed
qed

lemma lower_append: "lower (a @ b) = lower a @ lower b"
  by (simp add: lower_def)

lemma has_error_indicator_iff:
  "has_error_indicator es html \<longleftrightarrow> (\<exists>e\<in>set es. contains (lower html) (lower e))"
  by (induction es) auto

lemma count_indicators_filter:
  "count_indicators xs html n = n + length (filter (contains html) xs)"
  by (induction xs arbitrary: n) auto

lemma product_indicators_distinct: "distinct product_indicators"
  by (simp add: product_indicators_def u_def)

lemma count_indicators_card:
  "count_indicators product_indicators html 0 = card {m \<in> set product_indicators. contains html m}"
proof -
  have "distinct (filter (contains html) product_indicators)"
    using product_indicators_distinct by simp
  then have "card (set (filter (contains html) product_indicators))
      = length (filter (contains html) product_indicators)"
    by (rule distinct_card)
  then have "length (filter (contains html) product_indicators)
      = card {m \<in> set product_indicators. contains html m}"
    by simp
  then show ?thesis by (simp only: count_indicators_filter add_0)
qed

text \<open>
  C5. A page that contains a challenge phrase in any letter case is not a product page,
  whatever markers it has; a page whose lowercased text contains no lowercased challenge
  phrase is a product page exactly when at least two distinct markers occur in it.
\<close>

theorem has_real_product_data_classifies:
  "(e \<in> set error_indicators \<and> lower t = lower e \<longrightarrow> \<not> has_real_product_data (pre @ t @ post))
   \<and> ((\<forall>e\<in>set error_indicators. \<not> contains (lower html) (lower e)) \<longrightarrow>
        (has_real_product_data html \<longleftrightarrow> 2 \<le> card {m \<in> set product_indicators. contains html m}))"
proof -
  have "\<not> has_real_product_data (pre @ t @ post)" if "e \<in> set error_indicators" "lower t = lower e"
  proof -
    have "lower (pre @ t @ post) = lower pre @ lower e @ lower post"
      using that by (simp add: lower_append)
    then have "contains (lower (pre @ t @ post)) (lower e)"
      unfolding contains_iff by blast
    with that show ?thesis
      by (auto simp: has_real_product_data_def has_error_indicator_iff)
  qed
  moreover have "has_real_product_data html \<longleftrightarrow> 2 \<le> card {m \<in> set product_indicators. contains html m}"
    if "\<forall>e\<in>set error_indicators. \<not> contains (lower html) (lower e)"
    using that by (simp add: has_real_product_data_def has_error_indicator_iff count_indicators_card)
  ultimately show ?thesis by blast
qed

theorem has_real_product_data_classifies_witness:
  "u ''captcha'' \<in> set error_indicators \<and> lower (u ''CAPTCHA'') = lower (u ''captcha'')
   \<and> \<not> has_real_product_data (u ''<span id=productTitle class=a-price>'' @ u ''CAPTCHA'' @ [])
   \<and> list_all (\<lambda>e. \<not> contains (lower (u ''id=productTitle class=a-price'')) (lower e))
         error_indicators
   \<and> has_real_product_data (u ''id=productTitle class=a-price'')
   \<and> 2 \<le> card {m \<in> set product_indicators. contains (u ''id=productTitle class=a-price'') m}
   \<and> list_all (\<lambda>e. \<not> contains (lower (u ''id=productTitle'')) (lower e)) error_indicators
   \<and> \<not> has_real_product_data (u ''id=productTitle'')
   \<and> \<not> 2 \<le> card {m \<in> set product_indicators. contains (u ''id=productTitle'') m}"
proof -
  have a: "u ''captcha'' \<in> set error_indicators \<and> lower (u ''CAPTCHA'') = lower (u ''captcha'')"
    by (simp add: regex_eval validity_eval)
  have b: "\<forall>e\<in>set error_indicators. \<not> contains (lower (u ''id=productTitle class=a-price'')) (lower e)"
    by (simp add: regex_eval validity_eval)
  have c: "\<forall>e\<in>set error_indicators. \<not> contains (lower (u ''id=productTitle'')) (lower e)"
    by (simp add: regex_eval validity_eval)
  have d: "has_real_product_data (u ''id=productTitle class=a-price'')"
    "\<not> has_real_product_data (u ''id=productTitle'')"
    by (simp_all add: regex_eval validity_eval)
  from a b c d
    has_real_product_data_classifies [of "u ''captcha''" "u ''CAPTCHA''"
      "u ''<span id=productTitle class=a-price>''" "[]" "u ''id=productTitle class=a-price''"]
    has_real_product_data_classifies [of "u ''captcha''" "u ''CAPTCHA''"
      "u ''<span id=productTitle class=a-price>''" "[]" "u ''id=productTitle''"]
  show ?thesis unfolding list_all_iff by blast
qed

section \<open>Properties of price extraction\<close>

lemma startswith_prefix: "startswith (p @ v) p"
  by (simp add: startswith_iff)

lemma currency_symbols_nonempty:
  "map_of currency_symbols code = Some symbol \<Longrightarrow> symbol \<noteq> []"
  by (auto simp: currency_symbols_def u_def rupee_def pound_def euro_def split: if_splits)

lemma well_formed_empty: "well_formed_price empty_price"
  by (simp add: well_formed_price_def empty_price_def)

lemma well_formed_priced:
  "code = [] \<or> map_of currency_symbols code = Some symbol \<Longrightarrow> well_formed_price (priced symbol v code)"
  using currency_symbols_nonempty [of code symbol]
  by (auto simp: well_formed_price_def priced_def startswith_prefix)

lemma symbol_table:
  "map_of currency_symbols (u ''INR'') = Some [rupee]"
  "map_of currency_symbols (u ''USD'') = Some (u ''$'')"
  "map_of currency_symbols (u ''GBP'') = Some [pound]"
  "map_of currency_symbols (u ''EUR'') = Some [euro]"
  "map_of currency_symbols (u ''CAD'') = Some (u ''C$'')"
  "map_of currency_symbols (u ''AUD'') = Some (u ''A$'')"
  by (simp_all add: currency_symbols_def u_def)

lemma well_formed_for_expected: "well_formed_price (price_for_expected e v)"
  unfolding price_for_expected_def
  by (simp add: well_formed_priced symbol_table well_formed_empty)

lemma well_formed_from_context: "well_formed_price (price_from_context c v)"
  unfolding price_from_context_def
  by (simp add: well_formed_priced symbol_table)

lemma entries_ok:
  "list_all entry_ok inr_patterns" "list_all entry_ok gbp_patterns" "list_all entry_ok usd_patterns"
  "list_all entry_ok eur_patterns" "list_all entry_ok cad_patterns" "list_all entry_ok aud_patterns"
  "list_all entry_ok generic_patterns" "entry_ok bare_number"
  by (simp_all add: entry_ok_def symbol_table inr_patterns_def gbp_patterns_def usd_patterns_def
      eur_patterns_def cad_patterns_def aud_patterns_def generic_patterns_def bare_number_def)

lemma price_patterns_ok: "list_all entry_ok (price_patterns e)"
  by (simp add: price_patterns_def entries_ok)

lemma fallback_patterns_ok: "list_all entry_ok fallback_patterns"
  by (simp add: fallback_patterns_def entries_ok)

lemma first_pass_ok:
  "list_all entry_ok ps \<Longrightarrow> first_pass ps html = Some r \<Longrightarrow> well_formed_price r"
proof (induction ps html rule: first_pass.induct)
  case (1 html)
  then show ?case by simp
next
  case (2 pattern symbol currency_code rest html)
  then show ?case
    by (auto simp: entry_ok_def well_formed_priced split: option.splits if_splits)
qed

lemma second_pass_ok: "well_formed_price (second_pass ps html e)"
  by (induction ps html e rule: second_pass.induct)
     (auto simp: well_formed_empty well_formed_for_expected well_formed_from_context split: option.splits)

lemma scan_matches_ok:
  "code = [] \<or> map_of currency_symbols code = Some symbol \<Longrightarrow>
   scan_matches vs symbol code e = Some r \<Longrightarrow> well_formed_price r"
  by (induction vs) (auto simp: well_formed_priced well_formed_for_expected split: if_splits)

lemma fallback_loop_ok:
  "list_all entry_ok ps \<Longrightarrow> well_formed_price (fallback_loop ps html e)"
proof (induction ps html e rule: fallback_loop.induct)
  case (1 html e)
  then show ?case by (simp add: well_formed_empty)
next
  case (2 pattern symbol currency_code rest html e)
  then show ?case
    using scan_matches_ok [of currency_code symbol "re_findall True pattern html" e]
    by (auto simp: entry_ok_def split: option.splits)
qed

lemma first_pass_none:
  "\<forall>p\<in>set ps. \<not> hits p html \<Longrightarrow> first_pass ps html = None"
  by (induction ps html rule: first_pass.induct) (auto simp: hits_def split: option.splits)

lemma second_pass_none:
  "\<forall>p\<in>set ps. \<not> hits p html \<Longrightarrow> second_pass ps html e = empty_price"
  by (induction ps html e rule: second_pass.induct) (auto simp: hits_def split: option.splits)

lemma scan_matches_none:
  "\<forall>v\<in>set vs. \<not> is_valid_fallback_price v \<Longrightarrow> scan_matches vs symbol code e = None"
  by (induction vs) auto

lemma fallback_loop_skip:
  "\<forall>p\<in>set ps. \<forall>v\<in>set (re_findall True (fst p) html). \<not> is_valid_fallback_price v \<Longrightarrow>
   fallback_loop (ps @ qs) html e = fallback_loop qs html e"
proof (induction ps)
  case Nil
  show ?case by simp
next
  case (Cons p ps)
  obtain pattern symbol code where p: "p = (pattern, symbol, code)" by (cases p)
  from Cons.prems have "scan_matches (re_findall True pattern html) symbol code e = None"
    by (simp add: p scan_matches_none)
  with Cons show ?case by (simp add: p)
qed

lemma scan_matches_no_code:
  "scan_matches vs symbol [] e =
     (if e = [] then None else map_option (price_for_expected e) (find is_valid_fallback_price vs))"
  by (induction vs) auto

text \<open>
  C7. Every price record that the extractor returns, on the normal path and on the
  degraded-fetch path, has equal \<open>original\<close> and \<open>discounted\<close>; when its currency is not
  empty both are non-empty and begin with the symbol of that currency; and when no
  pattern yields a valid capture the record is the one with three empty strings.
\<close>

theorem price_record_invariant:
  "well_formed_price (extract_price_with_currency html original_url)
   \<and> well_formed_price (extract_fallback_price html expected_currency)
   \<and> (has_real_product_data html
        \<and> (\<forall>p\<in>set (price_patterns (expected_currency_of original_url)). \<not> hits p html) \<longrightarrow>
      extract_price_with_currency html original_url = empty_price)
   \<and> ((\<forall>p\<in>set fallback_patterns. \<forall>v\<in>set (re_findall True (fst p) html).
          \<not> is_valid_fallback_price v) \<longrightarrow>
      extract_fallback_price html expected_currency = empty_price
      \<and> (\<not> has_real_product_data html \<longrightarrow>
           extract_price_with_currency html original_url = empty_price))"
proof -
  let ?e = "expected_currency_of original_url"
  let ?T = "price_patterns ?e"
  have fb: "well_formed_price (extract_fallback_price html e)" for e
    by (simp add: extract_fallback_price_def fallback_loop_ok fallback_patterns_ok)
  have "list_all entry_ok (take (length ?T - 2) ?T)"
    using price_patterns_ok [of ?e] by (auto simp: list_all_iff dest: in_set_takeD)
  then have fp: "first_pass (take (length ?T - 2) ?T) html = Some r \<Longrightarrow> well_formed_price r" for r
    by (rule first_pass_ok)
  have 1: "well_formed_price (extract_price_with_currency html original_url)"
    by (auto simp: extract_price_with_currency_def Let_def fb fp second_pass_ok split: option.splits)
  have 3: "extract_price_with_currency html original_url = empty_price"
    if "has_real_product_data html" "\<forall>p\<in>set ?T. \<not> hits p html"
  proof -
    have "\<forall>p\<in>set (take (length ?T - 2) ?T). \<not> hits p html"
      using that(2) by (auto dest: in_set_takeD)
    moreover have "\<forall>p\<in>set (drop (length ?T - 2) ?T). \<not> hits p html"
      using that(2) by (auto dest: in_set_dropD)
    ultimately show ?thesis
      using that(1) by (simp add: extract_price_with_currency_def Let_def first_pass_none second_pass_none)
  qed
  have 4: "extract_fallback_price html e = empty_price"
    if "\<forall>p\<in>set fallback_patterns. \<forall>v\<in>set (re_findall True (fst p) html). \<not> is_valid_fallback_price v" for e
    using fallback_loop_skip [OF that, of "[]" e] by (simp add: extract_fallback_price_def)
  from 1 fb 3 4 show ?thesis
    by (auto simp: extract_price_with_currency_def Let_def)
qed

theorem price_record_invariant_witness:
  "extract_price_with_currency
      (u ''productTitle a-price '' @ [rupee] @ u ''2,499'') (u ''https://www.amazon.in/dp/B08N5WRWNW'')
     = \<lparr>original = [rupee] @ u ''2,499'', discounted = [rupee] @ u ''2,499'', currency = u ''INR''\<rparr>
   \<and> map_of currency_symbols (u ''INR'') = Some [rupee]
   \<and> has_real_product_data (u ''productTitle a-price'')
   \<and> list_all (\<lambda>p. \<not> hits p (u ''productTitle a-price''))
         (price_patterns (expected_currency_of (u ''amazon.in'')))
   \<and> extract_price_with_currency (u ''productTitle a-price'') (u ''amazon.in'') = empty_price
   \<and> list_all (\<lambda>p. list_all (\<lambda>v. \<not> is_valid_fallback_price v)
         (re_findall True (fst p) (u ''blocked 7''))) fallback_patterns
   \<and> \<not> has_real_product_data (u ''blocked 7'')
   \<and> extract_fallback_price (u ''blocked 7'') (u ''USD'') = empty_price
   \<and> extract_price_with_currency (u ''blocked 7'') (u ''amazon.in'') = empty_price"
proof -
  have a: "extract_price_with_currency
      (u ''productTitle a-price '' @ [rupee] @ u ''2,499'') (u ''https://www.amazon.in/dp/B08N5WRWNW'')
     = \<lparr>original = [rupee] @ u ''2,499'', discounted = [rupee] @ u ''2,499'', currency = u ''INR''\<rparr>"
    by (simp add: regex_eval validity_eval extract_eval price_eval)
  have b: "has_real_product_data (u ''productTitle a-price'')"
    by (simp add: regex_eval validity_eval)
  have c: "\<forall>p\<in>set (price_patterns (expected_currency_of (u ''amazon.in''))).
         \<not> hits p (u ''productTitle a-price'')"
    by (simp add: regex_eval extract_eval price_eval)
  have d: "\<forall>p\<in>set fallback_patterns. \<forall>v\<in>set (re_findall True (fst p) (u ''blocked 7'')).
         \<not> is_valid_fallback_price v"
    by (simp add: regex_eval extract_eval price_eval)
  have e: "\<not> has_real_product_data (u ''blocked 7'')"
    by (simp add: regex_eval validity_eval)
  have f: "well_formed_price \<lparr>original = [rupee] @ u ''2,499'', discounted = [rupee] @ u ''2,499'',
      currency = u ''INR''\<rparr> \<Longrightarrow> map_of currency_symbols (u ''INR'') = Some [rupee]"
    by (simp add: symbol_table)
  from a b c d e f
    price_record_invariant [of "u ''productTitle a-price '' @ [rupee] @ u ''2,499''"
      "u ''https://www.amazon.in/dp/B08N5WRWNW''" "u ''USD''"]
    price_record_invariant [of "u ''productTitle a-price''" "u ''amazon.in''" "u ''USD''"]
    price_record_invariant [of "u ''blocked 7''" "u ''amazon.in''" "u ''USD''"]
  show ?thesis unfolding list_all_iff by metis
qed

lemma fallback_patterns_split:
  "fallback_patterns = butlast fallback_patterns @ [bare_number]"
proof -
  have "fallback_patterns =
      (gbp_patterns @ usd_patterns @ eur_patterns @ cad_patterns @ aud_patterns @ inr_patterns)
      @ [bare_number]"
    by (simp add: fallback_patterns_def)
  then show ?thesis by (metis butlast_snoc)
qed

lemma bare_number_parts: "bare_number = (fst bare_number, [], [])"
  by (simp add: bare_number_def)

lemma fallback_loop_bare:
  "fallback_loop [bare_number] html e =
     (if e = [] then empty_price
      else case find is_valid_fallback_price (re_findall True (fst bare_number) html) of
             None \<Rightarrow> empty_price | Some v \<Rightarrow> price_for_expected e v)"
proof -
  have "fallback_loop [(fst bare_number, [], [])] html e =
     (if e = [] then empty_price
      else case find is_valid_fallback_price (re_findall True (fst bare_number) html) of
             None \<Rightarrow> empty_price | Some v \<Rightarrow> price_for_expected e v)"
    by (simp add: scan_matches_no_code split: option.splits)
  then show ?thesis using bare_number_parts by simp
qed

text \<open>
  C10. In the degraded-fetch extraction, when no currency pattern has a valid match, an
  empty currency hint gives the empty record whatever the bare-number pattern matches;
  with a hint, the first valid bare number becomes the price in the hinted currency.
\<close>

theorem bare_number_needs_currency_hint:
  "(\<forall>p\<in>set (butlast fallback_patterns). \<forall>v\<in>set (re_findall True (fst p) html).
        \<not> is_valid_fallback_price v) \<longrightarrow>
     extract_fallback_price html [] = empty_price
     \<and> (\<not> has_real_product_data html \<and> expected_currency_of original_url = [] \<longrightarrow>
          extract_price_with_currency html original_url = empty_price)
     \<and> (expected_currency \<noteq> []
          \<and> find is_valid_fallback_price (re_findall True (fst bare_number) html) = Some v \<longrightarrow>
          extract_fallback_price html expected_currency = price_for_expected expected_currency v)"
proof
  assume h: "\<forall>p\<in>set (butlast fallback_patterns). \<forall>v\<in>set (re_findall True (fst p) html).
        \<not> is_valid_fallback_price v"
  have "extract_fallback_price html e = fallback_loop (butlast fallback_patterns @ [bare_number]) html e" for e
    using fallback_patterns_split by (simp add: extract_fallback_price_def)
  then have eq: "extract_fallback_price html e = fallback_loop [bare_number] html e" for e
    using fallback_loop_skip [OF h] by simp
  show "extract_fallback_price html [] = empty_price
     \<and> (\<not> has_real_product_data html \<and> expected_currency_of original_url = [] \<longrightarrow>
          extract_price_with_currency html original_url = empty_price)
     \<and> (expected_currency \<noteq> []
          \<and> find is_valid_fallback_price (re_findall True (fst bare_number) html) = Some v \<longrightarrow>
          extract_fallback_price html expected_currency = price_for_expected expected_currency v)"
    by (simp add: eq fallback_loop_bare extract_price_with_currency_def Let_def)
qed

theorem bare_number_needs_currency_hint_witness:
  "list_all (\<lambda>p. list_all (\<lambda>v. \<not> is_valid_fallback_price v)
        (re_findall True (fst p) (u ''blocked 1234''))) (butlast fallback_patterns)
   \<and> \<not> has_real_product_data (u ''blocked 1234'') \<and> expected_currency_of (u ''B08N5WRWNW'') = []
   \<and> find is_valid_fallback_price (re_findall True (fst bare_number) (u ''blocked 1234''))
       = Some (u ''1234'')
   \<and> extract_fallback_price (u ''blocked 1234'') [] = empty_price
   \<and> extract_price_with_currency (u ''blocked 1234'') (u ''B08N5WRWNW'') = empty_price
   \<and> extract_fallback_price (u ''blocked 1234'') (u ''USD'')
       = \<lparr>original = u ''$1234'', discounted = u ''$1234'', currency = u ''USD''\<rparr>"
proof -
  have a: "\<forall>p\<in>set (butlast fallback_patterns). \<forall>v\<in>set (re_findall True (fst p) (u ''blocked 1234'')).
        \<not> is_valid_fallback_price v"
    by (simp add: regex_eval extract_eval price_eval)
  have b: "\<not> has_real_product_data (u ''blocked 1234'')"
    by (simp add: regex_eval validity_eval)
  have c: "expected_currency_of (u ''B08N5WRWNW'') = []" "u ''USD'' \<noteq> []"
    by (simp_all add: expected_currency_of_def u_def)
  have d: "find is_valid_fallback_price (re_findall True (fst bare_number) (u ''blocked 1234''))
       = Some (u ''1234'')"
    by (simp add: regex_eval extract_eval price_eval)
  have e: "price_for_expected (u ''USD'') (u ''1234'')
       = \<lparr>original = u ''$1234'', discounted = u ''$1234'', currency = u ''USD''\<rparr>"
    by (simp add: price_for_expected_def priced_def u_def)
  from a b c d e
    bare_number_needs_currency_hint [of "u ''blocked 1234''" "u ''B08N5WRWNW''" "u ''USD''" "u ''1234''"]
  show ?thesis unfolding list_all_iff by metis
qed

lemma first_pass_index:
  "i < length ps \<Longrightarrow> hits (ps ! i) html \<Longrightarrow> \<forall>j<i. \<not> hits (ps ! j) html \<Longrightarrow>
   first_pass ps html = Some (priced (fst (snd (ps ! i))) (hit_value (ps ! i) html) (snd (snd (ps ! i))))"
proof (induction ps arbitrary: i)
  case Nil
  then show ?case by simp
next
  case (Cons p ps)
  obtain pattern symbol code where p: "p = (pattern, symbol, code)" by (cases p)
  show ?case
  proof (cases i)
    case 0
    with Cons.prems show ?thesis
      by (auto simp: p hits_def hit_value_def split: option.splits)
  next
    case (Suc k)
    with Cons.prems have "\<not> hits p html" by auto
    then have skip: "first_pass (p # ps) html = first_pass ps html"
      by (auto simp: p hits_def split: option.splits)
    from Suc Cons.prems have "k < length ps" "hits (ps ! k) html" "\<forall>j<k. \<not> hits (ps ! j) html"
      by auto
    from Cons.IH [OF this] show ?thesis by (simp add: skip Suc)
  qed
qed

lemma price_patterns_length: "length (price_patterns e) = 15"
  by (simp add: price_patterns_def inr_patterns_def gbp_patterns_def usd_patterns_def
      eur_patterns_def cad_patterns_def aud_patterns_def generic_patterns_def)

lemma extract_first_hit:
  assumes "has_real_product_data html" "i < 13"
    "hits (price_patterns (expected_currency_of url) ! i) html"
    "\<forall>j<i. \<not> hits (price_patterns (expected_currency_of url) ! j) html"
  shows "extract_price_with_currency html url =
     priced (fst (snd (price_patterns (expected_currency_of url) ! i)))
            (hit_value (price_patterns (expected_currency_of url) ! i) html)
            (snd (snd (price_patterns (expected_currency_of url) ! i)))"
proof -
  let ?T = "price_patterns (expected_currency_of url)"
  let ?S = "take (length ?T - 2) ?T"
  have len: "length ?S = 13" by (simp add: price_patterns_length)
  have nth: "?S ! j = ?T ! j" if "j < 13" for j using that by (simp add: price_patterns_length)
  have "first_pass ?S html = Some (priced (fst (snd (?S ! i))) (hit_value (?S ! i) html) (snd (snd (?S ! i))))"
  proof (rule first_pass_index)
    show "i < length ?S" using assms(2) len by simp
    show "hits (?S ! i) html" using assms(2,3) nth by simp
    show "\<forall>j<i. \<not> hits (?S ! j) html" using assms(2,4) nth by auto
  qed
  then show ?thesis
    using assms(1,2) nth by (simp add: extract_price_with_currency_def Let_def)
qed

lemma currency_priced: "currency (priced s v c) = c"
  by (simp add: priced_def)

lemma table_codes:
  "map (\<lambda>p. snd (snd p)) (take 13 (price_patterns e)) =
     (if e = u ''INR''
      then [u ''INR'', u ''INR'', u ''INR'', u ''GBP'', u ''GBP'', u ''USD'', u ''USD'', u ''EUR'',
            u ''EUR'', u ''CAD'', u ''CAD'', u ''AUD'', u ''AUD'']
      else [u ''GBP'', u ''GBP'', u ''USD'', u ''USD'', u ''EUR'', u ''EUR'', u ''CAD'', u ''CAD'',
            u ''AUD'', u ''AUD'', u ''INR'', u ''INR'', u ''INR''])"
  by (simp add: price_patterns_def inr_patterns_def gbp_patterns_def usd_patterns_def
      eur_patterns_def cad_patterns_def aud_patterns_def generic_patterns_def)

lemma table_heads:
  "price_patterns (u ''INR'') ! 0 = inr_patterns ! 0"
  "e \<noteq> u ''INR'' \<Longrightarrow> price_patterns e ! 0 = gbp_patterns ! 0"
  "e \<noteq> u ''INR'' \<Longrightarrow> price_patterns e ! Suc 0 = gbp_patterns ! Suc 0"
  "e \<noteq> u ''INR'' \<Longrightarrow> price_patterns e ! 2 = usd_patterns ! 0"
  by (simp_all add: price_patterns_def inr_patterns_def gbp_patterns_def usd_patterns_def)

text \<open>
  C2, as stated, fails: on the product page below, which contains the valid rupee price
  2,499 and the valid pound price 10, an Indian URL yields GBP. \<open>re.search\<close> reports only
  the leftmost match of a pattern; the leftmost rupee amount, 5, is not a valid price,
  and the later rupee price is never examined.
\<close>

theorem rupee_price_present_pound_returned:
  "contains rupee_and_pound_page ([rupee] @ u ''2,499'') \<and> is_valid_price (u ''2,499'')
   \<and> contains rupee_and_pound_page ([pound] @ u ''10'') \<and> is_valid_price (u ''10'')
   \<and> has_real_product_data rupee_and_pound_page
   \<and> expected_currency_of (u ''https://www.amazon.in/dp/B08N5WRWNW'') = u ''INR''
   \<and> currency (extract_price_with_currency rupee_and_pound_page
        (u ''https://www.amazon.in/dp/B08N5WRWNW'')) = u ''GBP''"
  by (simp add: rupee_and_pound_page_def regex_eval validity_eval extract_eval price_eval)

text \<open>
  C2, amended. The currency entries of the table are INR first when the expected
  currency is INR, and GBP first with INR last otherwise. On a page classified as a
  real product page, the first currency pattern, in table order, whose leftmost match
  captures a valid price determines the record. In particular, when the leftmost match
  of the rupee-sign pattern is valid and INR is expected the currency is INR; when INR
  is not expected and the leftmost match of the pound-sign pattern is valid it is GBP;
  and when INR is not expected, neither pound pattern hits and the leftmost match of
  the dollar-sign pattern is valid it is USD.
\<close>

theorem first_valid_currency_pattern_wins:
  "map (\<lambda>p. snd (snd p)) (take 13 (price_patterns e)) =
     (if e = u ''INR''
      then [u ''INR'', u ''INR'', u ''INR'', u ''GBP'', u ''GBP'', u ''USD'', u ''USD'', u ''EUR'',
            u ''EUR'', u ''CAD'', u ''CAD'', u ''AUD'', u ''AUD'']
      else [u ''GBP'', u ''GBP'', u ''USD'', u ''USD'', u ''EUR'', u ''EUR'', u ''CAD'', u ''CAD'',
            u ''AUD'', u ''AUD'', u ''INR'', u ''INR'', u ''INR''])
   \<and> (has_real_product_data html \<and> i < 13
        \<and> hits (price_patterns (expected_currency_of url) ! i) html
        \<and> (\<forall>j<i. \<not> hits (price_patterns (expected_currency_of url) ! j) html) \<longrightarrow>
      extract_price_with_currency html url =
        priced (fst (snd (price_patterns (expected_currency_of url) ! i)))
               (hit_value (price_patterns (expected_currency_of url) ! i) html)
               (snd (snd (price_patterns (expected_currency_of url) ! i))))
   \<and> (has_real_product_data html \<and> expected_currency_of url = u ''INR''
        \<and> hits (inr_patterns ! 0) html \<longrightarrow>
      currency (extract_price_with_currency html url) = u ''INR'')
   \<and> (has_real_product_data html \<and> expected_currency_of url \<noteq> u ''INR''
        \<and> hits (gbp_patterns ! 0) html \<longrightarrow>
      currency (extract_price_with_currency html url) = u ''GBP'')
   \<and> (has_real_product_data html \<and> expected_currency_of url \<noteq> u ''INR''
        \<and> \<not> hits (gbp_patterns ! 0) html \<and> \<not> hits (gbp_patterns ! 1) html
        \<and> hits (usd_patterns ! 0) html \<longrightarrow>
      currency (extract_price_with_currency html url) = u ''USD'')"
proof -
  let ?T = "price_patterns (expected_currency_of url)"
  have inr: "currency (extract_price_with_currency html url) = u ''INR''"
    if "has_real_product_data html" "expected_currency_of url = u ''INR''" "hits (inr_patterns ! 0) html"
  proof -
    have "hits (?T ! 0) html" using that by (simp add: table_heads)
    from extract_first_hit [OF that(1) _ this] have
      "extract_price_with_currency html url = priced (fst (snd (?T ! 0))) (hit_value (?T ! 0) html) (snd (snd (?T ! 0)))"
      by simp
    then show ?thesis using that(2) by (simp add: currency_priced table_heads inr_patterns_def)
  qed
  have gbp: "currency (extract_price_with_currency html url) = u ''GBP''"
    if "has_real_product_data html" "expected_currency_of url \<noteq> u ''INR''" "hits (gbp_patterns ! 0) html"
  proof -
    have "hits (?T ! 0) html" using that by (simp add: table_heads)
    from extract_first_hit [OF that(1) _ this] have
      "extract_price_with_currency html url = priced (fst (snd (?T ! 0))) (hit_value (?T ! 0) html) (snd (snd (?T ! 0)))"
      by simp
    then show ?thesis using that(2) by (simp add: currency_priced table_heads gbp_patterns_def)
  qed
  have usd: "currency (extract_price_with_currency html url) = u ''USD''"
    if "has_real_product_data html" "expected_currency_of url \<noteq> u ''INR''"
      "\<not> hits (gbp_patterns ! 0) html" "\<not> hits (gbp_patterns ! 1) html" "hits (usd_patterns ! 0) html"
  proof -
    have h: "hits (?T ! 2) html" using that by (simp add: table_heads)
    have n: "\<forall>j<2. \<not> hits (?T ! j) html"
    proof (intro allI impI)
      fix j :: nat
      assume "j < 2"
      then consider "j = 0" | "j = 1" by linarith
      then show "\<not> hits (?T ! j) html"
        using that by cases (simp_all add: table_heads)
    qed
    from extract_first_hit [OF that(1) _ h n] have
      "extract_price_with_currency html url = priced (fst (snd (?T ! 2))) (hit_value (?T ! 2) html) (snd (snd (?T ! 2)))"
      by simp
    then show ?thesis using that(2) by (simp add: currency_priced table_heads usd_patterns_def)
  qed
  from table_codes [of e] extract_first_hit [of html i url] inr gbp usd show ?thesis by blast
qed

theorem first_valid_currency_pattern_wins_witness:
  "has_real_product_data (u ''productTitle a-price '' @ [rupee] @ u ''2,499 '' @ [pound] @ u ''10'')
   \<and> expected_currency_of (u ''amazon.in'') = u ''INR''
   \<and> hits (inr_patterns ! 0) (u ''productTitle a-price '' @ [rupee] @ u ''2,499 '' @ [pound] @ u ''10'')
   \<and> currency (extract_price_with_currency
        (u ''productTitle a-price '' @ [rupee] @ u ''2,499 '' @ [pound] @ u ''10'') (u ''amazon.in''))
       = u ''INR''
   \<and> expected_currency_of (u ''amazon.co.uk'') \<noteq> u ''INR''
   \<and> hits (gbp_patterns ! 0) (u ''productTitle a-price '' @ [rupee] @ u ''2,499 '' @ [pound] @ u ''10'')
   \<and> currency (extract_price_with_currency
        (u ''productTitle a-price '' @ [rupee] @ u ''2,499 '' @ [pound] @ u ''10'') (u ''amazon.co.uk''))
       = u ''GBP''"
proof -
  let ?page = "u ''productTitle a-price '' @ [rupee] @ u ''2,499 '' @ [pound] @ u ''10''"
  have a: "has_real_product_data ?page"
    by (simp add: regex_eval validity_eval rupee_def pound_def)
  have b: "expected_currency_of (u ''amazon.in'') = u ''INR''"
    "expected_currency_of (u ''amazon.co.uk'') \<noteq> u ''INR''"
    by (simp_all add: expected_currency_of_def u_def)
  have c: "hits (inr_patterns ! 0) ?page" "hits (gbp_patterns ! 0) ?page"
    by (simp_all add: regex_eval extract_eval price_eval)
  from a b c
    first_valid_currency_pattern_wins [of "u ''INR''" ?page 0 "u ''amazon.in''"]
    first_valid_currency_pattern_wins [of "u ''INR''" ?page 0 "u ''amazon.co.uk''"]
  show ?thesis by blast
qed

section \<open>Properties of description cleaning\<close>

lemma ms_space_star:
  "\<exists>rest. ms ic w (Star (Set [Space])) s = (None, dropWhile isspace s) # rest"
proof (induction s)
  case Nil
  show ?case by simp
next
  case (Cons c s)
  then obtain rest where r: "ms ic w (Star (Set [Space])) s = (None, dropWhile isspace s) # rest"
    by blast
  show ?case
  proof (cases "isspace c")
    case True
    then show ?thesis using r by (simp add: set_match_def merge_group_def)
  next
    case False
    then show ?thesis by (simp add: set_match_def)
  qed
qed

lemma ms_whitespace_run:
  "ms ic w whitespace_run [] = []"
  "\<not> isspace c \<Longrightarrow> ms ic w whitespace_run (c # t) = []"
  "isspace c \<Longrightarrow> \<exists>rest. ms ic w whitespace_run (c # t) = (None, dropWhile isspace t) # rest"
proof -
  show "ms ic w whitespace_run [] = []" by (simp add: whitespace_run_def Plus_def)
  show "\<not> isspace c \<Longrightarrow> ms ic w whitespace_run (c # t) = []"
    by (simp add: whitespace_run_def Plus_def set_match_def)
  assume c: "isspace c"
  obtain rest where r: "ms ic w (Star (Set [Space])) t = (None, dropWhile isspace t) # rest"
    using ms_space_star by blast
  have 1: "ms ic w (Set [Space]) (c # t) = [(None, t)]" using c by (simp add: set_match_def)
  have "ms ic w whitespace_run (c # t) =
      concat (map (\<lambda>m1. map (\<lambda>m2. (merge_group (fst m1) (fst m2), snd m2))
                             (ms ic w (Star (Set [Space])) (snd m1)))
                  (ms ic w (Set [Space]) (c # t)))"
    unfolding whitespace_run_def Plus_def by (rule ms.simps(6))
  also have "\<dots> = map (\<lambda>m2. (merge_group None (fst m2), snd m2))
      ((None, dropWhile isspace t) # rest)"
    unfolding 1 by (simp del: ms.simps add: r)
  finally show "\<exists>rest. ms ic w whitespace_run (c # t) = (None, dropWhile isspace t) # rest"
    by (simp del: ms.simps add: merge_group_def)
qed

lemma sub_from_whitespace: "sub_from ic w whitespace_run [32] s = collapse s"
proof (induction s rule: collapse.induct)
  case 1
  show ?case by (subst sub_from.simps) (simp add: ms_whitespace_run)
next
  case (2 c t)
  show ?case
  proof (cases "isspace c")
    case True
    then obtain rest where "ms ic w whitespace_run (c # t) = (None, dropWhile isspace t) # rest"
      using ms_whitespace_run(3) by blast
    then show ?thesis using True 2
      by (subst sub_from.simps) (simp add: less_Suc_eq_le length_dropWhile_le)
  next
    case False
    then show ?thesis using 2 by (subst sub_from.simps) (simp add: ms_whitespace_run)
  qed
qed

lemma re_sub_whitespace: "re_sub False whitespace_run (u '' '') s = collapse s"
  by (simp add: re_sub_def sub_from_whitespace u_def)

lemma collapse_head: "\<not> isspace c \<Longrightarrow> \<exists>r. collapse (c # t) = c # r"
  by simp

lemma dropWhile_head: "dropWhile P xs = [] \<or> (\<exists>h r. dropWhile P xs = h # r \<and> \<not> P h)"
  by (metis hd_dropWhile list.collapse)

lemma isspace_32: "isspace 32"
  by (simp add: isspace_def)

lemma single_spaced_collapse: "single_spaced (collapse s)"
proof (induction s rule: collapse.induct)
  case 1
  show ?case by simp
next
  case (2 c t)
  show ?case
  proof (cases "isspace c")
    case True
    from dropWhile_head [of isspace t] show ?thesis
    proof
      assume "dropWhile isspace t = []"
      then have "collapse (c # t) = [32]" using True by (simp del: dropWhile_eq_Nil_conv)
      then show ?thesis by simp
    next
      assume "\<exists>h r. dropWhile isspace t = h # r \<and> \<not> isspace h"
      then obtain h r where hr: "dropWhile isspace t = h # r" "\<not> isspace h" by blast
      then have "single_spaced (collapse (h # r))" using 2(1) True by simp
      moreover have "collapse (c # t) = 32 # collapse (h # r)" using True hr by simp
      moreover have "collapse (h # r) = h # collapse r" using hr by simp
      ultimately show ?thesis using hr(2) by simp
    qed
  next
    case False
    then have ih: "single_spaced (collapse t)" using 2(2) by simp
    show ?thesis using False ih by (cases "collapse t") simp_all
  qed
qed

lemma single_spaced_tl: "single_spaced (c # t) \<Longrightarrow> single_spaced t"
  by (cases t) simp_all

lemma single_spaced_dropWhile: "single_spaced s \<Longrightarrow> single_spaced (dropWhile P s)"
  by (induction s) (auto dest: single_spaced_tl)

lemma single_spaced_prefix: "single_spaced (xs @ ys) \<Longrightarrow> single_spaced xs"
proof (induction xs rule: single_spaced.induct)
  case 1
  show ?case by simp
next
  case (2 c)
  then show ?case by (cases ys) simp_all
next
  case (3 c d t)
  then show ?case by simp
qed

lemma strip_prefix_of: "\<exists>ys. dropWhile isspace s = strip s @ ys"
proof -
  let ?y = "dropWhile isspace s"
  have "rev ?y = takeWhile isspace (rev ?y) @ dropWhile isspace (rev ?y)" by simp
  then have "?y = rev (dropWhile isspace (rev ?y)) @ rev (takeWhile isspace (rev ?y))"
    by (metis rev_append rev_rev_ident)
  then show ?thesis unfolding strip_def by blast
qed

lemma single_spaced_strip: "single_spaced s \<Longrightarrow> single_spaced (strip s)"
proof -
  assume "single_spaced s"
  then have "single_spaced (dropWhile isspace s)" by (rule single_spaced_dropWhile)
  moreover obtain ys where "dropWhile isspace s = strip s @ ys" using strip_prefix_of by blast
  ultimately show ?thesis using single_spaced_prefix by metis
qed

lemma collapse_single_spaced: "single_spaced s \<Longrightarrow> collapse s = s"
proof (induction s rule: single_spaced.induct)
  case 1
  show ?case by simp
next
  case (2 c)
  then show ?case by simp
next
  case (3 c d t)
  then show ?case by auto
qed

lemma dropWhile_strip: "dropWhile isspace (strip s) = strip s"
proof -
  from dropWhile_head [of isspace s] show ?thesis
  proof
    assume a: "dropWhile isspace s = []"
    have "strip s = []" unfolding strip_def a by simp
    then show ?thesis by simp
  next
    assume "\<exists>h r. dropWhile isspace s = h # r \<and> \<not> isspace h"
    then obtain h r where hr: "dropWhile isspace s = h # r" "\<not> isspace h" by blast
    have "dropWhile isspace (rev r @ [h]) = dropWhile isspace (rev r) @ [h]"
      using hr(2) by (simp add: dropWhile_append3)
    then have "strip s = h # rev (dropWhile isspace (rev r))"
      by (simp add: strip_def hr)
    then show ?thesis using hr(2) by simp
  qed
qed

lemma strip_strip: "strip (strip s) = strip s"
proof -
  have "rev (strip s) = dropWhile isspace (rev (dropWhile isspace s))"
    by (simp add: strip_def)
  then have "dropWhile isspace (rev (strip s)) = rev (strip s)"
    by (simp add: dropWhile_idem)
  then have "strip (strip s) = rev (rev (strip s))"
    unfolding strip_def [of "strip s"] by (simp add: dropWhile_strip)
  then show ?thesis by simp
qed

lemma replace_noop: "\<not> contains s old \<Longrightarrow> replace old new s = s"
proof (induction s)
  case Nil
  show ?case by (subst replace.simps) simp
next
  case (Cons c s)
  then show ?case by (subst replace.simps) simp
qed

lemma sub_from_noop: "search_from ic w r s = None \<Longrightarrow> sub_from ic w r repl s = s"
proof (induction s)
  case Nil
  then have "ms ic w r [] = []"
    by (subst (asm) search_from.simps) (simp split: list.splits)
  then show ?case by (subst sub_from.simps) simp
next
  case (Cons c s)
  from Cons.prems have m: "ms ic w r (c # s) = []" and n: "search_from ic w r s = None"
    by (subst (asm) search_from.simps, simp split: list.splits)+
  show ?case using m Cons.IH [OF n] by (subst sub_from.simps) simp
qed

lemma re_sub_noop: "re_search ic r s = None \<Longrightarrow> re_sub ic r repl s = s"
  by (simp add: re_search_def re_sub_def sub_from_noop)

lemma remove_prefixes_noop:
  "\<forall>p\<in>set ps. \<not> startswith s p \<Longrightarrow> remove_prefixes ps s = s"
  by (induction ps) auto

lemma clean_description_tidy:
  "collapse (clean_description s) = clean_description s
   \<and> strip (clean_description s) = clean_description s"
proof (cases "s = []")
  case True
  then show ?thesis by (simp add: clean_description_def strip_def)
next
  case False
  then obtain y where "clean_description s = strip (collapse y)"
    by (simp add: clean_description_def Let_def re_sub_whitespace)
  then show ?thesis
    by (simp add: strip_strip collapse_single_spaced single_spaced_strip single_spaced_collapse)
qed

text \<open>
  C8, as stated, fails: the prefixes are removed in one pass in list order, so a text
  that begins with \<open>Description\<close> followed by \<open>About this item\<close> loses only the first
  prefix; cleaning the result again removes the second.
\<close>

theorem clean_description_not_idempotent:
  "clean_description (clean_description (u ''DescriptionAbout this item''))
     \<noteq> clean_description (u ''DescriptionAbout this item'')"
proof -
  have 1: "clean_description (u ''DescriptionAbout this item'') = u ''About this item''"
    unfolding clean_description_def Let_def by (simp add: regex_eval clean_eval)
  have 2: "clean_description (u ''About this item'') = []"
    unfolding clean_description_def Let_def by (simp add: regex_eval clean_eval)
  show ?thesis unfolding 1 2 by (simp add: u_def)
qed

text \<open>
  C8, amended. A cleaned text that does not begin with one of the boilerplate prefixes,
  contains none of the six entities and contains no tag is a fixed point of the
  cleaning function.
\<close>

theorem clean_description_fixed_point:
  "(\<forall>p\<in>set prefixes_to_remove. \<not> startswith (clean_description s) p)
   \<and> (\<forall>e\<in>set html_entities. \<not> contains (clean_description s) e)
   \<and> re_search False html_tag (clean_description s) = None
   \<longrightarrow> clean_description (clean_description s) = clean_description s"
proof
  let ?t = "clean_description s"
  assume h: "(\<forall>p\<in>set prefixes_to_remove. \<not> startswith ?t p)
   \<and> (\<forall>e\<in>set html_entities. \<not> contains ?t e) \<and> re_search False html_tag ?t = None"
  then have p: "remove_prefixes prefixes_to_remove ?t = ?t"
    by (simp add: remove_prefixes_noop)
  from h have e: "replace (u ''&amp;'') new ?t = ?t" "replace (u ''&quot;'') new ?t = ?t"
    "replace (u ''&#39;'') new ?t = ?t" "replace (u ''&lt;'') new ?t = ?t"
    "replace (u ''&gt;'') new ?t = ?t" "replace (u ''&nbsp;'') new ?t = ?t" for new
    by (simp_all add: replace_noop html_entities_def)
  from h have g: "re_sub False html_tag [] ?t = ?t" by (simp add: re_sub_noop)
  show "clean_description ?t = ?t"
    unfolding clean_description_def [of ?t] Let_def
    by (simp add: p e g re_sub_whitespace clean_description_tidy)
qed

theorem clean_description_fixed_point_witness:
  "clean_description (u ''Features:  a &amp; <b>x</b>  y '') = u ''a & x y''
   \<and> list_all (\<lambda>p. \<not> startswith (u ''a & x y'') p) prefixes_to_remove
   \<and> list_all (\<lambda>e. \<not> contains (u ''a & x y'') e) html_entities
   \<and> re_search False html_tag (u ''a & x y'') = None
   \<and> clean_description (u ''a & x y'') = u ''a & x y''"
proof -
  have 1: "clean_description (u ''Features:  a &amp; <b>x</b>  y '') = u ''a & x y''"
    unfolding clean_description_def Let_def by (simp add: regex_eval clean_eval)
  have 2: "\<forall>p\<in>set prefixes_to_remove. \<not> startswith (u ''a & x y'') p"
    by (simp add: prefixes_to_remove_def u_def)
  have 3: "\<forall>e\<in>set html_entities. \<not> contains (u ''a & x y'') e"
    by (simp add: html_entities_def u_def)
  have 4: "re_search False html_tag (u ''a & x y'') = None"
    by (simp add: regex_eval clean_eval)
  from clean_description_fixed_point [of "u ''Features:  a &amp; <b>x</b>  y ''"] 1 2 3 4
  have "clean_description (u ''a & x y'') = u ''a & x y''" by simp
  with 1 2 3 4 show ?thesis unfolding list_all_iff by blast
qed

section \<open>Properties of image extraction\<close>









end
